theory Spec2Isabelle
  imports Main
begin

text \<open>
  The subscription manager of the repository: one record behind a storage adapter, a
  timestamp filled in when the caller leaves it empty, and callbacks notified after each
  write. The asynchronous operations are modelled as they run when no other operation is
  interleaved at their single \<^verbatim>\<open>await\<close>; a callback acts on the manager only through
  \<^verbatim>\<open>subscribe\<close> and the unsubscribe functions, or throws.
\<close>

section \<open>Data model\<close>

text \<open>
  \<^verbatim>\<open>interface ISubscription { active: boolean; updatedAt: string }\<close>.
  The manager is generic in \<^verbatim>\<open>T extends ISubscription\<close>: the tenant's extra fields are the
  extension part (\<open>more\<close>) of the record scheme \<open>'a ISubscription_scheme\<close>.
\<close>

record ISubscription =
  active :: bool
  updatedAt :: string

text \<open>
  \<^verbatim>\<open>interface IStorage<T>\<close>: the three operations of the storage adapter. The adapter is
  supplied by the tenant, so it is a parameter: an operation takes the adapter's own state
  \<open>'s\<close> and returns the new one, together with either the value thrown (the rejection of
  the promise, \<open>Inl\<close>) or the result (\<open>Inr\<close>). The fields are \<^verbatim>\<open>get\<close>, \<^verbatim>\<open>set\<close> and
  \<^verbatim>\<open>remove\<close> of the source.
\<close>

record ('r, 's, 'e) IStorage =
  storage_get :: "string \<Rightarrow> 's \<Rightarrow> ('e + 'r option) \<times> 's"
  storage_set :: "string \<Rightarrow> 'r \<Rightarrow> 's \<Rightarrow> ('e + unit) \<times> 's"
  storage_remove :: "string \<Rightarrow> 's \<Rightarrow> ('e + unit) \<times> 's"

text \<open>
  A listener is a function object; the \<^verbatim>\<open>Set\<close> of listeners compares function objects by
  reference. A reference is a number, and the body of the function behind a reference is
  looked up in a table (\<open>bodies\<close> below), so two references may have the same body.

  What a callback does when it is called is a sequence of steps against the manager: it
  registers a listener (\<^verbatim>\<open>manager.subscribe(l)\<close>), calls the unsubscribe function that
  \<^verbatim>\<open>subscribe(l)\<close> returned, or throws. Steps after a throw are not run.
\<close>

type_synonym lref = nat

datatype 'e action = Subscribe lref | Unsubscribe lref | Throw 'e

type_synonym ('r, 'e) callback = "'r option \<Rightarrow> 'e action list"

text \<open>
  \<^verbatim>\<open>interface ISubscriptionManagerConfig<T>\<close>, with the optional \<^verbatim>\<open>onChange\<close>.
\<close>

record ('r, 's, 'e) ISubscriptionManagerConfig =
  storage :: "('r, 's, 'e) IStorage"
  storageKey :: string
  onChange :: "('r, 'e) callback option"

text \<open>
  The data of an ECMAScript \<^verbatim>\<open>Set\<close> is a list of entries in insertion order in which a
  deleted entry leaves an empty slot (\<open>None\<close>); \<^verbatim>\<open>add\<close> appends a value that is not
  present and does nothing otherwise, \<^verbatim>\<open>delete\<close> empties the slot of the value.
\<close>

type_synonym listener_set = "lref option list"

definition set_add :: "lref \<Rightarrow> listener_set \<Rightarrow> listener_set" where
  "set_add l ls = (if Some l \<in> set ls then ls else ls @ [Some l])"

definition set_delete :: "lref \<Rightarrow> listener_set \<Rightarrow> listener_set" where
  "set_delete l ls = map (\<lambda>e. if e = Some l then None else e) ls"

text \<open>The values of the set, in insertion order.\<close>

definition members :: "listener_set \<Rightarrow> lref list" where
  "members ls = concat (map (\<lambda>e. case e of None \<Rightarrow> [] | Some l \<Rightarrow> [l]) ls)"

text \<open>
  Who was called: the \<^verbatim>\<open>onChange\<close> of the configuration or a listener. The log of calls
  is not part of the program; it records each call of a callback with its argument, in
  order, so that claims about notification can be stated.
\<close>

datatype callee = OnChange | Listener lref

text \<open>
  What changes while the manager runs: the private \<^verbatim>\<open>listeners\<close> set, the state behind the
  storage adapter, and the log of calls.
\<close>

record ('r, 's) world =
  listeners :: listener_set
  storage_state :: 's
  calls :: "(callee \<times> 'r option) list"

section \<open>The subscription manager\<close>

text \<open>
  \<^verbatim>\<open>subscribe(listener) { this.listeners.add(listener); return () => { this.listeners.delete(listener); }; }\<close>
  \<open>unsubscribe l\<close> is a call of the function that \<open>subscribe l\<close> returned.
\<close>

definition subscribe :: "lref \<Rightarrow> ('r, 's) world \<Rightarrow> ('r, 's) world" where
  "subscribe listener w = w\<lparr>listeners := set_add listener (listeners w)\<rparr>"

definition unsubscribe :: "lref \<Rightarrow> ('r, 's) world \<Rightarrow> ('r, 's) world" where
  "unsubscribe listener w = w\<lparr>listeners := set_delete listener (listeners w)\<rparr>"

text \<open>The steps of one callback, run against the world; a throw stops them.\<close>

fun run_actions :: "'e action list \<Rightarrow> ('r, 's) world \<Rightarrow> ('e + unit) \<times> ('r, 's) world" where
  "run_actions [] w = (Inr (), w)"
| "run_actions (Subscribe l # as) w = run_actions as (subscribe l w)"
| "run_actions (Unsubscribe l # as) w = run_actions as (unsubscribe l w)"
| "run_actions (Throw e # as) w = (Inl e, w)"

text \<open>A call \<^verbatim>\<open>fn(subscription)\<close>: the call is logged, then the body runs.\<close>

definition invoke ::
  "callee \<Rightarrow> ('r, 'e) callback \<Rightarrow> 'r option \<Rightarrow> ('r, 's) world \<Rightarrow> ('e + unit) \<times> ('r, 's) world" where
  "invoke c fn subscription w =
     run_actions (fn subscription) (w\<lparr>calls := calls w @ [(c, subscription)]\<rparr>)"

text \<open>
  \<^verbatim>\<open>this.listeners.forEach((fn) => fn(subscription))\<close>. \<^verbatim>\<open>Set.prototype.forEach\<close> walks the
  entries of the live set by index: it skips an empty slot, calls the callback on a value,
  and reads the number of entries again after each call, so it reaches entries appended
  meanwhile. A throw of the callback ends the walk. The walk need not end (a listener that
  unsubscribes and subscribes itself is appended again each time it is called), so the
  result is an option: \<open>None\<close> is a walk that never returns.
\<close>

partial_function (option) forEach ::
  "(lref \<Rightarrow> ('r, 'e) callback) \<Rightarrow> 'r option \<Rightarrow> nat \<Rightarrow> ('r, 's) world
     \<Rightarrow> (('e + unit) \<times> ('r, 's) world) option" where
  "forEach bodies subscription index w =
     (if index < length (listeners w) then
        (case listeners w ! index of
           None \<Rightarrow> forEach bodies subscription (index + 1) w
         | Some fn \<Rightarrow>
             (case invoke (Listener fn) (bodies fn) subscription w of
                (Inl e, w') \<Rightarrow> Some (Inl e, w')
              | (Inr u, w') \<Rightarrow> forEach bodies subscription (index + 1) w'))
      else Some (Inr (), w))"

declare forEach.simps [code]

text \<open>
  \<^verbatim>\<open>private notify(subscription) { this.config.onChange?.(subscription); this.listeners.forEach(...) }\<close>
\<close>

definition notify ::
  "('r, 's, 'e) ISubscriptionManagerConfig \<Rightarrow> (lref \<Rightarrow> ('r, 'e) callback) \<Rightarrow> 'r option
     \<Rightarrow> ('r, 's) world \<Rightarrow> (('e + unit) \<times> ('r, 's) world) option" where
  "notify config bodies subscription w =
     (case onChange config of
        None \<Rightarrow> forEach bodies subscription 0 w
      | Some f \<Rightarrow>
          (case invoke OnChange f subscription w of
             (Inl e, w') \<Rightarrow> Some (Inl e, w')
           | (Inr u, w') \<Rightarrow> forEach bodies subscription 0 w'))"

text \<open>
  \<^verbatim>\<open>async getSubscription() { return this.config.storage.get(this.config.storageKey); }\<close>
\<close>

definition getSubscription ::
  "('r, 's, 'e) ISubscriptionManagerConfig \<Rightarrow> ('r, 's) world
     \<Rightarrow> ('e + 'r option) \<times> ('r, 's) world" where
  "getSubscription config w =
     (case storage_get (storage config) (storageKey config) (storage_state w) of
        (res, s') \<Rightarrow> (res, w\<lparr>storage_state := s'\<rparr>))"

text \<open>
  \<^verbatim>\<open>async isActive() { const sub = await this.getSubscription(); return sub?.active ?? false; }\<close>
\<close>

definition isActive ::
  "('a ISubscription_scheme, 's, 'e) ISubscriptionManagerConfig
     \<Rightarrow> ('a ISubscription_scheme, 's) world
     \<Rightarrow> ('e + bool) \<times> ('a ISubscription_scheme, 's) world" where
  "isActive config w =
     (case getSubscription config w of
        (Inl e, w') \<Rightarrow> (Inl e, w')
      | (Inr sub, w') \<Rightarrow>
          (Inr (case sub of None \<Rightarrow> False | Some r \<Rightarrow> active r), w'))"

text \<open>
  \<^verbatim>\<open>const toStore = { ...subscription, updatedAt: subscription.updatedAt || new Date().toISOString() }\<close>
  The spread copies the fields of the record (a plain object, its fields being its own
  enumerable properties), then \<open>updatedAt\<close> is set. A string is falsy when it is empty.
  \<open>now\<close> is the string that \<^verbatim>\<open>new Date().toISOString()\<close> returns at the time of the
  call.
\<close>

definition toStore :: "string \<Rightarrow> 'a ISubscription_scheme \<Rightarrow> 'a ISubscription_scheme" where
  "toStore now subscription =
     subscription\<lparr>updatedAt := (if updatedAt subscription \<noteq> [] then updatedAt subscription else now)\<rparr>"

text \<open>
  \<^verbatim>\<open>async setSubscription(subscription) { const toStore = ...; await this.config.storage.set(this.config.storageKey, toStore); this.notify(toStore); }\<close>
  A rejection of the awaited promise leaves the function at once.
\<close>

definition setSubscription ::
  "('a ISubscription_scheme, 's, 'e) ISubscriptionManagerConfig
     \<Rightarrow> (lref \<Rightarrow> ('a ISubscription_scheme, 'e) callback) \<Rightarrow> string
     \<Rightarrow> 'a ISubscription_scheme \<Rightarrow> ('a ISubscription_scheme, 's) world
     \<Rightarrow> (('e + unit) \<times> ('a ISubscription_scheme, 's) world) option" where
  "setSubscription config bodies now subscription w =
     (case storage_set (storage config) (storageKey config) (toStore now subscription)
             (storage_state w) of
        (Inl e, s') \<Rightarrow> Some (Inl e, w\<lparr>storage_state := s'\<rparr>)
      | (Inr u, s') \<Rightarrow>
          notify config bodies (Some (toStore now subscription)) (w\<lparr>storage_state := s'\<rparr>))"

text \<open>
  \<^verbatim>\<open>async clearSubscription() { await this.config.storage.remove(this.config.storageKey); this.notify(null); }\<close>
\<close>

definition clearSubscription ::
  "('r, 's, 'e) ISubscriptionManagerConfig \<Rightarrow> (lref \<Rightarrow> ('r, 'e) callback)
     \<Rightarrow> ('r, 's) world \<Rightarrow> (('e + unit) \<times> ('r, 's) world) option" where
  "clearSubscription config bodies w =
     (case storage_remove (storage config) (storageKey config) (storage_state w) of
        (Inl e, s') \<Rightarrow> Some (Inl e, w\<lparr>storage_state := s'\<rparr>)
      | (Inr u, s') \<Rightarrow> notify config bodies None (w\<lparr>storage_state := s'\<rparr>))"

text \<open>
  The in-memory adapter of the test suite (\<^verbatim>\<open>createMockStorage\<close>): a \<^verbatim>\<open>Map\<close> from keys to
  records; \<^verbatim>\<open>get\<close> returns \<^verbatim>\<open>store.get(key) ?? null\<close>, \<^verbatim>\<open>set\<close> stores, \<^verbatim>\<open>remove\<close> deletes.
\<close>

definition createMockStorage :: "('r, string \<rightharpoonup> 'r, 'e) IStorage" where
  "createMockStorage =
     \<lparr>storage_get = (\<lambda>key store. (Inr (store key), store)),
      storage_set = (\<lambda>key v store. (Inr (), store(key \<mapsto> v))),
      storage_remove = (\<lambda>key store. (Inr (), store(key := None)))\<rparr>"

text \<open>
  The fixtures of the test suite: \<^verbatim>\<open>interface TestSubscription extends ISubscription { plan: 'free' | 'pro' }\<close>,
  \<^verbatim>\<open>STORAGE_KEY = 'test:sub'\<close>, and the configuration the tests build the manager from
  (with or without \<^verbatim>\<open>onChange\<close>).
\<close>

datatype plan = Free | Pro

record TestSubscription = ISubscription +
  plan :: plan

definition STORAGE_KEY :: string where
  "STORAGE_KEY = ''test:sub''"

definition test_config ::
  "(TestSubscription, string) callback option
     \<Rightarrow> (TestSubscription, string \<rightharpoonup> TestSubscription, string) ISubscriptionManagerConfig" where
  "test_config cb = \<lparr>storage = createMockStorage, storageKey = STORAGE_KEY, onChange = cb\<rparr>"

section \<open>Notions used to state the properties\<close>

text \<open>The calls made between a world and a later one.\<close>

definition pass_calls :: "('r, 's) world \<Rightarrow> ('r, 's) world \<Rightarrow> (callee \<times> 'r option) list" where
  "pass_calls w w' = drop (length (calls w)) (calls w')"

text \<open>
  The calls one pass makes: the call of \<open>onChange\<close>, when the configuration has one, and
  the calls of listeners, all with the same argument.
\<close>

definition onChange_calls ::
  "('r, 's, 'e) ISubscriptionManagerConfig \<Rightarrow> 'r option \<Rightarrow> (callee \<times> 'r option) list" where
  "onChange_calls config v = (case onChange config of None \<Rightarrow> [] | Some f \<Rightarrow> [(OnChange, v)])"

definition listener_calls :: "'r option \<Rightarrow> lref list \<Rightarrow> (callee \<times> 'r option) list" where
  "listener_calls v ls = map (\<lambda>l. (Listener l, v)) ls"

text \<open>
  A caller that uses the manager for a while: a sequence of calls of \<open>setSubscription\<close>
  (with the clock string at the time of the call), \<open>clearSubscription\<close>, \<open>subscribe\<close> and
  unsubscribe functions, each run to its end before the next, whether it succeeded or
  failed. The result is the world after the last call, or \<open>None\<close> when a call never
  returns.
\<close>

datatype 'r manager_call =
  CallSet string 'r | CallClear | CallSubscribe lref | CallUnsubscribe lref

fun run_calls ::
  "('a ISubscription_scheme, 's, 'e) ISubscriptionManagerConfig
     \<Rightarrow> (lref \<Rightarrow> ('a ISubscription_scheme, 'e) callback)
     \<Rightarrow> 'a ISubscription_scheme manager_call list
     \<Rightarrow> ('a ISubscription_scheme, 's) world
     \<Rightarrow> ('a ISubscription_scheme, 's) world option" where
  "run_calls config bodies [] w = Some w"
| "run_calls config bodies (CallSet now subscription # cs) w =
     (case setSubscription config bodies now subscription w of
        None \<Rightarrow> None
      | Some (res, w') \<Rightarrow> run_calls config bodies cs w')"
| "run_calls config bodies (CallClear # cs) w =
     (case clearSubscription config bodies w of
        None \<Rightarrow> None
      | Some (res, w') \<Rightarrow> run_calls config bodies cs w')"
| "run_calls config bodies (CallSubscribe l # cs) w = run_calls config bodies cs (subscribe l w)"
| "run_calls config bodies (CallUnsubscribe l # cs) w =
     run_calls config bodies cs (unsubscribe l w)"

text \<open>
  A set only grows at its end, and a slot only changes by being emptied. A callback leaves
  the storage alone and the log of earlier calls as it is.
\<close>

definition slots_le :: "listener_set \<Rightarrow> listener_set \<Rightarrow> bool" where
  "slots_le ls ls' \<longleftrightarrow>
     length ls \<le> length ls' \<and> (\<forall>j < length ls. ls' ! j = ls ! j \<or> ls' ! j = None)"

definition frame :: "('r, 's) world \<Rightarrow> ('r, 's) world \<Rightarrow> bool" where
  "frame w w' \<longleftrightarrow>
     slots_le (listeners w) (listeners w') \<and> storage_state w' = storage_state w \<and>
     (\<exists>cs. calls w' = calls w @ cs)"

text \<open>
  The timestamp format that \<^verbatim>\<open>Date.prototype.toISOString\<close> produces for the years 0 to
  9999, \<^verbatim>\<open>YYYY-MM-DDTHH:mm:ss.sssZ\<close>, with the fields in range. The test suite checks a
  timestamp \<^verbatim>\<open>x\<close> with \<^verbatim>\<open>new Date(x).toISOString() === x\<close>, which is this format.
\<close>

definition is_digit :: "char \<Rightarrow> bool" where
  "is_digit c \<longleftrightarrow> c \<in> set ''0123456789''"

definition digit_val :: "char \<Rightarrow> nat" where
  "digit_val c = of_char c - 48"

definition number :: "string \<Rightarrow> nat" where
  "number s = foldl (\<lambda>n c. 10 * n + digit_val c) 0 s"

definition days_in_month :: "nat \<Rightarrow> nat \<Rightarrow> nat" where
  "days_in_month y m =
     (if m = 2 then (if y mod 4 = 0 \<and> (y mod 100 \<noteq> 0 \<or> y mod 400 = 0) then 29 else 28)
      else if m \<in> {4, 6, 9, 11} then 30 else 31)"

definition is_iso8601 :: "string \<Rightarrow> bool" where
  "is_iso8601 s \<longleftrightarrow>
     length s = 24 \<and>
     list_all is_digit (take 4 s) \<and> s ! 4 = CHR ''-'' \<and>
     list_all is_digit (take 2 (drop 5 s)) \<and> s ! 7 = CHR ''-'' \<and>
     list_all is_digit (take 2 (drop 8 s)) \<and> s ! 10 = CHR ''T'' \<and>
     list_all is_digit (take 2 (drop 11 s)) \<and> s ! 13 = CHR '':'' \<and>
     list_all is_digit (take 2 (drop 14 s)) \<and> s ! 16 = CHR '':'' \<and>
     list_all is_digit (take 2 (drop 17 s)) \<and> s ! 19 = CHR ''.'' \<and>
     list_all is_digit (take 3 (drop 20 s)) \<and> s ! 23 = CHR ''Z'' \<and>
     1 \<le> number (take 2 (drop 5 s)) \<and> number (take 2 (drop 5 s)) \<le> 12 \<and>
     1 \<le> number (take 2 (drop 8 s)) \<and>
     number (take 2 (drop 8 s)) \<le> days_in_month (number (take 4 s)) (number (take 2 (drop 5 s))) \<and>
     number (take 2 (drop 11 s)) \<le> 23 \<and>
     number (take 2 (drop 14 s)) \<le> 59 \<and>
     number (take 2 (drop 17 s)) \<le> 59"

section \<open>Facts about the listener set\<close>

lemma Some_in_members: "l \<in> set (members ls) \<longleftrightarrow> Some l \<in> set ls"
  by (induction ls) (auto simp: members_def split: option.splits)

lemma members_append: "members (xs @ ys) = members xs @ members ys"
  by (simp add: members_def)

lemma members_set_add:
  "members (set_add l ls) = (if l \<in> set (members ls) then members ls else members ls @ [l])"
  by (simp add: set_add_def Some_in_members members_append) (simp add: members_def)

lemma members_set_delete: "members (set_delete l ls) = removeAll l (members ls)"
  by (induction ls) (auto simp: members_def set_delete_def split: option.splits)

lemma set_add_idem: "set_add l (set_add l ls) = set_add l ls"
  by (simp add: set_add_def)

lemma set_delete_idem: "set_delete l (set_delete l ls) = set_delete l ls"
  by (simp add: set_delete_def)

lemma distinct_set_add: "distinct (members ls) \<Longrightarrow> distinct (members (set_add l ls))"
  by (simp add: members_set_add)

lemma distinct_set_delete: "distinct (members ls) \<Longrightarrow> distinct (members (set_delete l ls))"
  by (simp add: members_set_delete distinct_removeAll)

lemma members_drop_Some:
  "i < length ls \<Longrightarrow> ls ! i = Some l \<Longrightarrow> members (drop i ls) = l # members (drop (Suc i) ls)"
  by (simp add: members_def Cons_nth_drop_Suc [symmetric])

lemma members_drop_None:
  "i < length ls \<Longrightarrow> ls ! i = None \<Longrightarrow> members (drop i ls) = members (drop (Suc i) ls)"
  by (simp add: members_def Cons_nth_drop_Suc [symmetric])

lemma forEach_passive:
  "(\<forall>l \<in> set (members (drop i (listeners w))). bodies l v = []) \<Longrightarrow>
   forEach bodies v i w =
     Some (Inr (), w\<lparr>calls := calls w @ map (\<lambda>l. (Listener l, v)) (members (drop i (listeners w)))\<rparr>)"
proof (induction "length (listeners w) - i" arbitrary: i w)
  case 0
  then show ?case by (subst forEach.simps) (simp add: members_def)
next
  case (Suc n)
  then have lt: "i < length (listeners w)" by simp
  show ?case
  proof (cases "listeners w ! i")
    case None
    have "forEach bodies v (Suc i) w =
      Some (Inr (), w\<lparr>calls := calls w @ map (\<lambda>l. (Listener l, v)) (members (drop (Suc i) (listeners w)))\<rparr>)"
      using Suc lt None by (intro Suc.hyps) (auto simp: members_drop_None)
    then show ?thesis using lt None
      by (subst forEach.simps) (simp add: members_drop_None)
  next
    case (Some fn)
    let ?w1 = "w\<lparr>calls := calls w @ [(Listener fn, v)]\<rparr>"
    have b: "bodies fn v = []" using Suc.prems lt Some by (simp add: members_drop_Some)
    have "forEach bodies v (Suc i) ?w1 =
      Some (Inr (), ?w1\<lparr>calls := calls ?w1 @ map (\<lambda>l. (Listener l, v)) (members (drop (Suc i) (listeners ?w1)))\<rparr>)"
      using Suc lt Some by (intro Suc.hyps) (auto simp: members_drop_Some)
    then show ?thesis using lt Some b
      by (subst forEach.simps) (simp add: members_drop_Some invoke_def)
  qed
qed

section \<open>Facts about callbacks and the walk over the listeners\<close>

lemma slots_le_refl: "slots_le ls ls"
  by (simp add: slots_le_def)

lemma slots_le_trans: "slots_le a b \<Longrightarrow> slots_le b c \<Longrightarrow> slots_le a c"
proof -
  assume ab: "slots_le a b" and bc: "slots_le b c"
  have "c ! j = a ! j \<or> c ! j = None" if "j < length a" for j
  proof -
    from that ab have jb: "j < length b" and 1: "b ! j = a ! j \<or> b ! j = None"
      by (auto simp: slots_le_def)
    from jb bc have "c ! j = b ! j \<or> c ! j = None" by (auto simp: slots_le_def)
    with 1 show ?thesis by auto
  qed
  moreover from ab bc have "length a \<le> length c" by (auto simp: slots_le_def)
  ultimately show ?thesis by (simp add: slots_le_def)
qed

lemma slots_le_set_add: "slots_le ls (set_add l ls)"
  by (simp add: slots_le_def set_add_def nth_append)

lemma slots_le_set_delete: "slots_le ls (set_delete l ls)"
  by (simp add: slots_le_def set_delete_def)

lemma frame_refl: "frame w w"
  by (simp add: frame_def slots_le_refl)

lemma frame_trans: "frame a b \<Longrightarrow> frame b c \<Longrightarrow> frame a c"
  unfolding frame_def by (auto intro: slots_le_trans)

lemma run_actions_frame: "run_actions as w = (r, w') \<Longrightarrow> frame w w'"
proof (induction as w rule: run_actions.induct)
  case (2 l as w)
  have "frame w (subscribe l w)"
    by (simp add: frame_def subscribe_def slots_le_set_add)
  with 2 show ?case by (auto intro: frame_trans)
next
  case (3 l as w)
  have "frame w (unsubscribe l w)"
    by (simp add: frame_def unsubscribe_def slots_le_set_delete)
  with 3 show ?case by (auto intro: frame_trans)
qed (auto simp: frame_refl)

lemma run_actions_calls: "run_actions as w = (r, w') \<Longrightarrow> calls w' = calls w"
  by (induction as w rule: run_actions.induct) (auto simp: subscribe_def unsubscribe_def)

lemma invoke_calls: "invoke c fn v w = (r, w') \<Longrightarrow> calls w' = calls w @ [(c, v)]"
  by (auto simp: invoke_def dest: run_actions_calls)

lemma invoke_frame: "invoke c fn v w = (r, w') \<Longrightarrow> frame w w'"
proof -
  assume a: "invoke c fn v w = (r, w')"
  have "frame w (w\<lparr>calls := calls w @ [(c, v)]\<rparr>)"
    by (simp add: frame_def slots_le_refl)
  moreover have "frame (w\<lparr>calls := calls w @ [(c, v)]\<rparr>) w'"
    using a by (auto simp: invoke_def dest: run_actions_frame)
  ultimately show ?thesis by (rule frame_trans)
qed

lemma pass_calls_trans:
  "frame a b \<Longrightarrow> frame b c \<Longrightarrow> pass_calls a c = pass_calls a b @ pass_calls b c"
  by (auto simp: frame_def pass_calls_def)

text \<open>
  The equations of the walk, case by case, and the induction over a walk that returns.
\<close>

lemma forEach_done: "\<not> i < length (listeners w) \<Longrightarrow> forEach bodies v i w = Some (Inr (), w)"
  by (subst forEach.simps) simp

lemma forEach_skip:
  "i < length (listeners w) \<Longrightarrow> listeners w ! i = None \<Longrightarrow>
   forEach bodies v i w = forEach bodies v (Suc i) w"
  by (subst forEach.simps) simp

lemma forEach_throw:
  "i < length (listeners w) \<Longrightarrow> listeners w ! i = Some fn \<Longrightarrow>
   invoke (Listener fn) (bodies fn) v w = (Inl e, w1) \<Longrightarrow>
   forEach bodies v i w = Some (Inl e, w1)"
  by (subst forEach.simps) simp

lemma forEach_call:
  "i < length (listeners w) \<Longrightarrow> listeners w ! i = Some fn \<Longrightarrow>
   invoke (Listener fn) (bodies fn) v w = (Inr u, w1) \<Longrightarrow>
   forEach bodies v i w = forEach bodies v (Suc i) w1"
  by (subst forEach.simps) simp

lemma forEach_induct [consumes 1, case_names finished empty_slot thrown called]:
  assumes run: "forEach bodies v i w = Some y"
    and d: "\<And>i w. \<not> i < length (listeners w) \<Longrightarrow> P i w (Inr (), w)"
    and s: "\<And>i w y. i < length (listeners w) \<Longrightarrow> listeners w ! i = None \<Longrightarrow>
              forEach bodies v (Suc i) w = Some y \<Longrightarrow> P (Suc i) w y \<Longrightarrow> P i w y"
    and t: "\<And>i w fn e w1. i < length (listeners w) \<Longrightarrow> listeners w ! i = Some fn \<Longrightarrow>
              invoke (Listener fn) (bodies fn) v w = (Inl e, w1) \<Longrightarrow> P i w (Inl e, w1)"
    and c: "\<And>i w fn w1 y. i < length (listeners w) \<Longrightarrow> listeners w ! i = Some fn \<Longrightarrow>
              invoke (Listener fn) (bodies fn) v w = (Inr (), w1) \<Longrightarrow>
              forEach bodies v (Suc i) w1 = Some y \<Longrightarrow> P (Suc i) w1 y \<Longrightarrow> P i w y"
  shows "P i w y"
proof -
  have "bodies = bodies \<longrightarrow> v = v \<longrightarrow> forEach bodies v i w = Some y \<and> P i w y"
    apply (rule forEach.raw_induct
        [where P = "\<lambda>b s i w y. b = bodies \<longrightarrow> s = v \<longrightarrow> forEach bodies v i w = Some y \<and> P i w y",
          OF _ run])
    subgoal premises prems for f b s i w y
    proof (intro impI)
      assume eqs: "b = bodies" "s = v"
      note IH = prems(1) [rule_format]
      note body = prems(2) [unfolded eqs]
      show "forEach bodies v i w = Some y \<and> P i w y"
      proof (cases "i < length (listeners w)")
        case False
        with body have "y = (Inr (), w)" by auto
        with False show ?thesis by (simp add: forEach_done d)
      next
        case True
        show ?thesis
        proof (cases "listeners w ! i")
          case None
          with True body have "f bodies v (Suc i) w = Some y" by simp
          then have "forEach bodies v (Suc i) w = Some y \<and> P (Suc i) w y"
            using IH by blast
          with True None show ?thesis by (simp add: forEach_skip s)
        next
          case (Some fn)
          obtain r w1 where inv: "invoke (Listener fn) (bodies fn) v w = (r, w1)"
            by (cases "invoke (Listener fn) (bodies fn) v w")
          show ?thesis
          proof (cases r)
            case (Inl e)
            with True Some inv body have "y = (Inl e, w1)" by simp
            with True Some inv Inl show ?thesis by (simp add: forEach_throw t)
          next
            case (Inr u)
            with True Some inv body have "f bodies v (Suc i) w1 = Some y" by simp
            then have "forEach bodies v (Suc i) w1 = Some y \<and> P (Suc i) w1 y"
              using IH by blast
            with True Some inv Inr show ?thesis by (simp add: forEach_call [of _ _ _ _ _ u] c)
          qed
        qed
      qed
    qed
    done
  then show ?thesis by simp
qed

lemma forEach_frame: "forEach bodies v i w = Some y \<Longrightarrow> frame w (snd y)"
proof (induction rule: forEach_induct)
  case (finished i w)
  show ?case by (simp add: frame_refl)
next
  case (empty_slot i w y)
  then show ?case by simp
next
  case (thrown i w fn e w1)
  then show ?case by (auto dest: invoke_frame)
next
  case (called i w fn w1 y)
  then show ?case by (auto dest: invoke_frame intro: frame_trans)
qed

lemma pass_calls_same [simp]: "pass_calls w w = []"
  by (simp add: pass_calls_def)

lemma pass_calls_invoke:
  "invoke c fn v w = (r, w1) \<Longrightarrow> pass_calls w w1 = [(c, v)]"
  by (auto simp: pass_calls_def dest: invoke_calls)

lemma pass_calls_step:
  "invoke c fn v w = (r, w1) \<Longrightarrow> frame w1 w' \<Longrightarrow> pass_calls w w' = (c, v) # pass_calls w1 w'"
  using pass_calls_trans [of w w1 w'] by (simp add: invoke_frame pass_calls_invoke)

lemma forEach_values:
  "forEach bodies v i w = Some y \<Longrightarrow>
   (c, x) \<in> set (pass_calls w (snd y)) \<Longrightarrow> x = v \<and> (\<exists>fn. c = Listener fn)"
proof (induction rule: forEach_induct)
  case (called i w fn w1 y)
  from called.hyps(4) have "frame w1 (snd y)" by (rule forEach_frame)
  with called show ?case by (auto simp: pass_calls_step)
qed (auto simp: pass_calls_invoke)

lemma forEach_reaches:
  "forEach bodies v i w = Some y \<Longrightarrow> fst y = Inr () \<Longrightarrow> i \<le> j \<Longrightarrow>
   j < length (listeners (snd y)) \<Longrightarrow> listeners (snd y) ! j = Some l \<Longrightarrow>
   (Listener l, v) \<in> set (pass_calls w (snd y))"
proof (induction rule: forEach_induct)
  case (finished i w)
  then show ?case by simp
next
  case (empty_slot i w y)
  from empty_slot.hyps(3) have "slots_le (listeners w) (listeners (snd y))"
    by (auto dest: forEach_frame simp: frame_def)
  with empty_slot.hyps(1,2) have "listeners (snd y) ! i = None"
    by (auto simp: slots_le_def)
  with empty_slot.prems have "Suc i \<le> j" by (cases "i = j") auto
  with empty_slot show ?case by simp
next
  case (thrown i w fn e w1)
  then show ?case by simp
next
  case (called i w fn w1 y)
  have f1: "frame w w1" using called.hyps(3) by (rule invoke_frame)
  have f2: "frame w1 (snd y)" using called.hyps(4) by (rule forEach_frame)
  have pc: "pass_calls w (snd y) = (Listener fn, v) # pass_calls w1 (snd y)"
    using called.hyps(3) f2 by (rule pass_calls_step)
  show ?case
  proof (cases "i = j")
    case True
    from f1 f2 have "slots_le (listeners w) (listeners (snd y))"
      by (auto simp: frame_def intro: slots_le_trans)
    with called.hyps(1,2) have "listeners (snd y) ! i = Some fn \<or> listeners (snd y) ! i = None"
      by (auto simp: slots_le_def)
    with True called.prems have "l = fn" by auto
    with pc show ?thesis by simp
  next
    case False
    with called.prems have "Suc i \<le> j" by simp
    with called pc show ?thesis by simp
  qed
qed

lemma run_actions_new_slot:
  "run_actions as w = (r, w') \<Longrightarrow> Some l \<in> set (drop k (listeners w')) \<Longrightarrow>
   Some l \<in> set (drop k (listeners w)) \<or> Subscribe l \<in> set as"
proof (induction as w rule: run_actions.induct)
  case (2 l' as w)
  then have "Some l \<in> set (drop k (listeners (subscribe l' w))) \<or> Subscribe l \<in> set as"
    by simp
  then show ?case
    by (auto simp: subscribe_def set_add_def split: if_splits dest: in_set_dropD)
next
  case (3 l' as w)
  then have "Some l \<in> set (drop k (listeners (unsubscribe l' w))) \<or> Subscribe l \<in> set as"
    by simp
  then show ?case
    by (auto simp: unsubscribe_def set_delete_def drop_map split: if_splits)
qed auto

lemma invoke_new_slot:
  "invoke c fn v w = (r, w') \<Longrightarrow> Some l \<in> set (drop k (listeners w')) \<Longrightarrow>
   Some l \<in> set (drop k (listeners w)) \<or> Subscribe l \<in> set (fn v)"
  unfolding invoke_def
  using run_actions_new_slot [of "fn v" "w\<lparr>calls := calls w @ [(c, v)]\<rparr>" r w' l k] by simp

lemma drop_Suc_subset: "x \<in> set (drop (Suc k) xs) \<Longrightarrow> x \<in> set (drop k xs)"
  by (metis in_set_dropD drop_drop plus_1_eq_Suc)

lemma forEach_not_invoked:
  "forEach bodies v i w = Some y \<Longrightarrow> Some l \<notin> set (drop i (listeners w)) \<Longrightarrow>
   (\<forall>fn. Subscribe l \<notin> set (bodies fn v)) \<Longrightarrow>
   (Listener l, x) \<notin> set (pass_calls w (snd y))"
proof (induction rule: forEach_induct)
  case (finished i w)
  then show ?case by simp
next
  case (empty_slot i w y)
  then show ?case by (auto dest: drop_Suc_subset)
next
  case (thrown i w fn e w1)
  from thrown.hyps(1,2) have "Some fn \<in> set (drop i (listeners w))"
    by (metis Cons_nth_drop_Suc list.set_intros(1))
  with thrown.prems have "fn \<noteq> l" by auto
  with thrown show ?case by (simp add: pass_calls_invoke)
next
  case (called i w fn w1 y)
  from called.hyps(1,2) have "Some fn \<in> set (drop i (listeners w))"
    by (metis Cons_nth_drop_Suc list.set_intros(1))
  with called.prems have ne: "fn \<noteq> l" by auto
  have f2: "frame w1 (snd y)" using called.hyps(4) by (rule forEach_frame)
  have pc: "pass_calls w (snd y) = (Listener fn, v) # pass_calls w1 (snd y)"
    using called.hyps(3) f2 by (rule pass_calls_step)
  have "Some l \<notin> set (drop (Suc i) (listeners w1))"
    using invoke_new_slot [OF called.hyps(3), of l "Suc i"] called.prems
    by (auto dest: drop_Suc_subset)
  with called pc ne show ?case by simp
qed

section \<open>Facts about the operations\<close>

lemma notify_frame: "notify config bodies v w = Some y \<Longrightarrow> frame w (snd y)"
proof (cases "onChange config")
  case None
  assume "notify config bodies v w = Some y"
  with None show ?thesis by (auto simp: notify_def dest: forEach_frame)
next
  case (Some f)
  assume n: "notify config bodies v w = Some y"
  obtain r w1 where inv: "invoke OnChange f v w = (r, w1)"
    by (cases "invoke OnChange f v w")
  then have f1: "frame w w1" by (rule invoke_frame)
  show ?thesis
  proof (cases r)
    case (Inl e)
    with n Some inv f1 show ?thesis by (auto simp: notify_def)
  next
    case (Inr u)
    with n Some inv have "forEach bodies v 0 w1 = Some y" by (simp add: notify_def)
    then have "frame w1 (snd y)" by (rule forEach_frame)
    with f1 show ?thesis by (rule frame_trans)
  qed
qed

lemma notify_values:
  assumes n: "notify config bodies v w = Some y"
    and m: "(c, x) \<in> set (pass_calls w (snd y))"
  shows "x = v"
proof (cases "onChange config")
  case None
  with n m show ?thesis by (auto simp: notify_def dest: forEach_values)
next
  case (Some f)
  obtain r w1 where inv: "invoke OnChange f v w = (r, w1)"
    by (cases "invoke OnChange f v w")
  show ?thesis
  proof (cases r)
    case (Inl e)
    with n Some inv have "y = (Inl e, w1)" by (simp add: notify_def)
    with m inv show ?thesis by (simp add: pass_calls_invoke)
  next
    case (Inr u)
    with n Some inv have fe: "forEach bodies v 0 w1 = Some y" by (simp add: notify_def)
    then have "frame w1 (snd y)" by (rule forEach_frame)
    with inv have "pass_calls w (snd y) = (OnChange, v) # pass_calls w1 (snd y)"
      by (rule pass_calls_step)
    with m fe show ?thesis by (auto dest: forEach_values)
  qed
qed

lemma setSubscription_storage:
  assumes "setSubscription config bodies now subscription w = Some y"
  shows "storage_state (snd y) =
    snd (storage_set (storage config) (storageKey config) (toStore now subscription) (storage_state w))"
proof -
  obtain r s' where st: "storage_set (storage config) (storageKey config)
      (toStore now subscription) (storage_state w) = (r, s')"
    by (cases "storage_set (storage config) (storageKey config)
      (toStore now subscription) (storage_state w)")
  show ?thesis
  proof (cases r)
    case (Inl e)
    with assms st show ?thesis by (auto simp: setSubscription_def)
  next
    case (Inr u)
    with assms st have "notify config bodies (Some (toStore now subscription))
        (w\<lparr>storage_state := s'\<rparr>) = Some y"
      by (simp add: setSubscription_def)
    then have "frame (w\<lparr>storage_state := s'\<rparr>) (snd y)" by (rule notify_frame)
    with st show ?thesis by (simp add: frame_def)
  qed
qed

lemma run_actions_Inl: "run_actions as w = (Inl e, w') \<Longrightarrow> Throw e \<in> set as"
  by (induction as w rule: run_actions.induct) auto

lemma run_actions_throw:
  "\<forall>e'. Throw e' \<notin> set pre \<Longrightarrow>
   run_actions (pre @ Throw e # post) w = (Inl e, snd (run_actions pre w))"
proof (induction pre arbitrary: w)
  case Nil
  show ?case by simp
next
  case (Cons a pre)
  then show ?case by (cases a) auto
qed

lemma forEach_no_throw:
  "forEach bodies v i w = Some y \<Longrightarrow> (\<forall>fn e'. Throw e' \<notin> set (bodies fn v)) \<Longrightarrow>
   fst y = Inr ()"
proof (induction rule: forEach_induct)
  case (thrown i w fn e w1)
  then show ?case by (auto simp: invoke_def dest: run_actions_Inl)
qed auto

lemma notify_no_throw:
  assumes n: "notify config bodies v w = Some y"
    and b: "\<forall>fn e'. Throw e' \<notin> set (bodies fn v)"
    and o: "\<forall>f e'. onChange config = Some f \<longrightarrow> Throw e' \<notin> set (f v)"
  shows "fst y = Inr ()"
proof (cases "onChange config")
  case None
  with n b show ?thesis by (auto simp: notify_def dest: forEach_no_throw)
next
  case (Some f)
  obtain r w1 where inv: "invoke OnChange f v w = (r, w1)"
    by (cases "invoke OnChange f v w")
  show ?thesis
  proof (cases r)
    case (Inl e)
    with inv have "Throw e \<in> set (f v)" by (auto simp: invoke_def dest: run_actions_Inl)
    with o Some show ?thesis by auto
  next
    case (Inr u)
    with n Some inv have "forEach bodies v 0 w1 = Some y" by (simp add: notify_def)
    with b show ?thesis by (auto dest: forEach_no_throw)
  qed
qed

lemma setSubscription_values:
  assumes s: "setSubscription config bodies now R w = Some y"
    and m: "(c, x) \<in> set (pass_calls w (snd y))"
  shows "x = Some (toStore now R)"
proof -
  obtain r s' where st: "storage_set (storage config) (storageKey config)
      (toStore now R) (storage_state w) = (r, s')"
    by (cases "storage_set (storage config) (storageKey config) (toStore now R) (storage_state w)")
  show ?thesis
  proof (cases r)
    case (Inl e)
    with s st m show ?thesis by (auto simp: setSubscription_def pass_calls_def)
  next
    case (Inr u)
    with s st have n: "notify config bodies (Some (toStore now R))
        (w\<lparr>storage_state := s'\<rparr>) = Some y"
      by (simp add: setSubscription_def)
    have "pass_calls (w\<lparr>storage_state := s'\<rparr>) (snd y) = pass_calls w (snd y)"
      by (simp add: pass_calls_def)
    with m notify_values [OF n] show ?thesis by auto
  qed
qed

lemma is_iso8601_nonempty: "is_iso8601 s \<Longrightarrow> s \<noteq> []"
  by (auto simp: is_iso8601_def)

lemma invoke_throw_result:
  assumes "fn v = pre @ Throw e # post" and "\<forall>e'. Throw e' \<notin> set pre"
  shows "invoke c fn v w = (Inl e, snd (run_actions pre (w\<lparr>calls := calls w @ [(c, v)]\<rparr>)))"
  by (simp add: invoke_def assms(1) run_actions_throw [OF assms(2)])

lemma notify_onChange_throw:
  assumes o: "onChange config = Some f"
    and f: "f v = pre @ Throw e # post" and p: "\<forall>e'. Throw e' \<notin> set pre"
  shows "\<exists>w'. notify config bodies v w = Some (Inl e, w') \<and>
           pass_calls w w' = [(OnChange, v)] \<and> storage_state w' = storage_state w"
proof -
  let ?w' = "snd (run_actions pre (w\<lparr>calls := calls w @ [(OnChange, v)]\<rparr>))"
  have inv: "invoke OnChange f v w = (Inl e, ?w')"
    using f p by (rule invoke_throw_result)
  then have "notify config bodies v w = Some (Inl e, ?w')"
    using o by (simp add: notify_def)
  moreover have "pass_calls w ?w' = [(OnChange, v)]"
    using inv by (rule pass_calls_invoke)
  moreover have "storage_state ?w' = storage_state w"
    using invoke_frame [OF inv] by (simp add: frame_def)
  ultimately show ?thesis by blast
qed

lemma forEach_shape:
  "forEach bodies v i w = Some y \<Longrightarrow> \<exists>ls. pass_calls w (snd y) = listener_calls v ls"
proof (induction rule: forEach_induct)
  case (finished i w)
  show ?case by (simp add: listener_calls_def)
next
  case (empty_slot i w y)
  then show ?case by simp
next
  case (thrown i w fn e w1)
  then have "pass_calls w w1 = listener_calls v [fn]"
    by (simp add: pass_calls_invoke listener_calls_def)
  then show ?case by auto
next
  case (called i w fn w1 y)
  from called.hyps(4) have "frame w1 (snd y)" by (rule forEach_frame)
  with called.hyps(3) have pc: "pass_calls w (snd y) = (Listener fn, v) # pass_calls w1 (snd y)"
    by (rule pass_calls_step)
  from called.IH obtain ls where "pass_calls w1 (snd y) = listener_calls v ls" by blast
  with pc have "pass_calls w (snd y) = listener_calls v (fn # ls)"
    by (simp add: listener_calls_def)
  then show ?case by blast
qed

lemma notify_shape:
  assumes n: "notify config bodies v w = Some y"
  shows "\<exists>ls. pass_calls w (snd y) = onChange_calls config v @ listener_calls v ls"
proof (cases "onChange config")
  case None
  with n show ?thesis by (auto simp: notify_def onChange_calls_def dest: forEach_shape)
next
  case (Some f)
  obtain r w1 where inv: "invoke OnChange f v w = (r, w1)"
    by (cases "invoke OnChange f v w")
  show ?thesis
  proof (cases r)
    case (Inl e)
    with n Some inv have "y = (Inl e, w1)" by (simp add: notify_def)
    with inv Some have "pass_calls w (snd y) = onChange_calls config v @ listener_calls v []"
      by (simp add: pass_calls_invoke onChange_calls_def listener_calls_def)
    then show ?thesis by blast
  next
    case (Inr u)
    with n Some inv have fe: "forEach bodies v 0 w1 = Some y" by (simp add: notify_def)
    then have "frame w1 (snd y)" by (rule forEach_frame)
    with inv have "pass_calls w (snd y) = (OnChange, v) # pass_calls w1 (snd y)"
      by (rule pass_calls_step)
    moreover from fe obtain ls where "pass_calls w1 (snd y) = listener_calls v ls"
      by (auto dest: forEach_shape)
    ultimately have "pass_calls w (snd y) = onChange_calls config v @ listener_calls v ls"
      using Some by (simp add: onChange_calls_def)
    then show ?thesis by blast
  qed
qed

lemma notify_passive:
  assumes b: "\<forall>l \<in> set (members (listeners w)). bodies l v = []"
    and o: "\<forall>f. onChange config = Some f \<longrightarrow> f v = []"
  shows "notify config bodies v w =
    Some (Inr (), w\<lparr>calls := calls w @ onChange_calls config v @
                              listener_calls v (members (listeners w))\<rparr>)"
proof (cases "onChange config")
  case None
  with forEach_passive [of 0 w bodies v] b show ?thesis
    by (simp add: notify_def onChange_calls_def listener_calls_def)
next
  case (Some f)
  let ?w1 = "w\<lparr>calls := calls w @ [(OnChange, v)]\<rparr>"
  from Some o have "invoke OnChange f v w = (Inr (), ?w1)" by (simp add: invoke_def)
  moreover from b have "forEach bodies v 0 ?w1 =
    Some (Inr (), ?w1\<lparr>calls := calls ?w1 @ map (\<lambda>l. (Listener l, v)) (members (drop 0 (listeners ?w1)))\<rparr>)"
    by (intro forEach_passive) simp
  ultimately show ?thesis using Some
    by (simp add: notify_def onChange_calls_def listener_calls_def)
qed

lemma notify_reaches:
  assumes n: "notify config bodies v w = Some (Inr (), w')"
    and l: "Some l \<in> set (listeners w')"
  shows "(Listener l, v) \<in> set (pass_calls w w')"
proof -
  from l obtain j where j: "j < length (listeners w')" "listeners w' ! j = Some l"
    by (auto simp: in_set_conv_nth)
  show ?thesis
  proof (cases "onChange config")
    case None
    with n have "forEach bodies v 0 w = Some (Inr (), w')" by (simp add: notify_def)
    from forEach_reaches [OF this, of j l] j show ?thesis by simp
  next
    case (Some f)
    obtain r w1 where inv: "invoke OnChange f v w = (r, w1)"
      by (cases "invoke OnChange f v w")
    with n Some have r: "r = Inr ()" by (cases r) (auto simp: notify_def)
    with n Some inv have fe: "forEach bodies v 0 w1 = Some (Inr (), w')" by (simp add: notify_def)
    then have "frame w1 w'" by (auto dest: forEach_frame)
    with inv have "pass_calls w w' = (OnChange, v) # pass_calls w1 w'"
      by (rule pass_calls_step)
    with forEach_reaches [OF fe, of j l] j show ?thesis by simp
  qed
qed

lemma notify_not_invoked:
  assumes n: "notify config bodies v w = Some y"
    and l: "Some l \<notin> set (listeners w)"
    and b: "\<forall>fn. Subscribe l \<notin> set (bodies fn v)"
    and o: "\<forall>f. onChange config = Some f \<longrightarrow> Subscribe l \<notin> set (f v)"
  shows "(Listener l, x) \<notin> set (pass_calls w (snd y))"
proof (cases "onChange config")
  case None
  with n have "forEach bodies v 0 w = Some y" by (simp add: notify_def)
  from forEach_not_invoked [OF this _ b] l show ?thesis by simp
next
  case (Some f)
  obtain r w1 where inv: "invoke OnChange f v w = (r, w1)"
    by (cases "invoke OnChange f v w")
  have l1: "Some l \<notin> set (drop 0 (listeners w1))"
    using invoke_new_slot [OF inv, of l 0] l o Some by auto
  show ?thesis
  proof (cases r)
    case (Inl e)
    with n Some inv have "y = (Inl e, w1)" by (simp add: notify_def)
    with inv show ?thesis by (simp add: pass_calls_invoke)
  next
    case (Inr u)
    with n Some inv have fe: "forEach bodies v 0 w1 = Some y" by (simp add: notify_def)
    then have "frame w1 (snd y)" by (rule forEach_frame)
    with inv have "pass_calls w (snd y) = (OnChange, v) # pass_calls w1 (snd y)"
      by (rule pass_calls_step)
    with forEach_not_invoked [OF fe l1 b] show ?thesis by simp
  qed
qed

lemma count_listener_calls:
  "distinct ls \<Longrightarrow> l \<in> set ls \<Longrightarrow> count_list (listener_calls v ls) (Listener l, v) = 1"
proof -
  have "count_list (listener_calls v ls) (Listener l, v) = count_list ls l"
    by (induction ls) (auto simp: listener_calls_def)
  moreover assume "distinct ls" "l \<in> set ls"
  then have "count_list ls l = 1" by (induction ls) auto
  ultimately show ?thesis by simp
qed

lemma pass_calls_storage_update [simp]:
  "pass_calls (w\<lparr>storage_state := s\<rparr>) w' = pass_calls w w'"
  by (simp add: pass_calls_def)

lemma set_delete_notin: "Some l \<notin> set (set_delete l ls)"
  by (auto simp: set_delete_def)

lemma count_distinct_member: "distinct xs \<Longrightarrow> x \<in> set xs \<Longrightarrow> count_list xs x = 1"
  by (induction xs) auto

lemma count_onChange_calls: "count_list (onChange_calls config v) (Listener l, x) = 0"
  by (simp add: onChange_calls_def split: option.splits)

lemma notify_passive_count:
  assumes d: "distinct (members (listeners w))"
    and b: "\<forall>l \<in> set (members (listeners w)). bodies l v = []"
    and o: "\<forall>f. onChange config = Some f \<longrightarrow> f v = []"
    and l: "l \<in> set (members (listeners w))"
  shows "\<exists>w'. notify config bodies v w = Some (Inr (), w') \<and>
           count_list (pass_calls w w') (Listener l, v) = 1"
proof -
  let ?w' = "w\<lparr>calls := calls w @ onChange_calls config v @
                              listener_calls v (members (listeners w))\<rparr>"
  have "notify config bodies v w = Some (Inr (), ?w')"
    using b o by (rule notify_passive)
  moreover have "pass_calls w ?w' =
      onChange_calls config v @ listener_calls v (members (listeners w))"
    by (simp add: pass_calls_def)
  then have "count_list (pass_calls w ?w') (Listener l, v) = 1"
    using d l by (simp add: count_onChange_calls count_listener_calls)
  ultimately show ?thesis by blast
qed

lemma run_actions_length:
  "run_actions as w = (r, w') \<Longrightarrow> \<forall>l. Subscribe l \<notin> set as \<Longrightarrow>
   length (listeners w') = length (listeners w)"
  by (induction as w rule: run_actions.induct) (auto simp: unsubscribe_def set_delete_def)

lemma invoke_length:
  "invoke c fn v w = (r, w') \<Longrightarrow> \<forall>l. Subscribe l \<notin> set (fn v) \<Longrightarrow>
   length (listeners w') = length (listeners w)"
  unfolding invoke_def
  using run_actions_length [of "fn v" "w\<lparr>calls := calls w @ [(c, v)]\<rparr>" r w'] by simp

lemma forEach_returns:
  "\<forall>fn l. Subscribe l \<notin> set (bodies fn v) \<Longrightarrow> \<exists>y. forEach bodies v i w = Some y"
proof (induction "length (listeners w) - i" arbitrary: i w)
  case 0
  then show ?case by (simp add: forEach_done)
next
  case (Suc n)
  then have lt: "i < length (listeners w)" by simp
  show ?case
  proof (cases "listeners w ! i")
    case None
    have "\<exists>y. forEach bodies v (Suc i) w = Some y"
      using Suc by (intro Suc.hyps) auto
    with lt None show ?thesis by (simp add: forEach_skip)
  next
    case (Some fn)
    obtain r w1 where inv: "invoke (Listener fn) (bodies fn) v w = (r, w1)"
      by (cases "invoke (Listener fn) (bodies fn) v w")
    show ?thesis
    proof (cases r)
      case (Inl e)
      with lt Some inv show ?thesis by (simp add: forEach_throw)
    next
      case (Inr u)
      from inv Suc.prems have "length (listeners w1) = length (listeners w)"
        by (intro invoke_length) auto
      with Suc have "\<exists>y. forEach bodies v (Suc i) w1 = Some y"
        by (intro Suc.hyps) auto
      with lt Some inv Inr show ?thesis by (simp add: forEach_call [of _ _ _ _ _ u])
    qed
  qed
qed

lemma notify_returns:
  "\<forall>fn l. Subscribe l \<notin> set (bodies fn v) \<Longrightarrow> \<exists>y. notify config bodies v w = Some y"
  using forEach_returns [of bodies v 0]
  by (auto simp: notify_def split: option.splits prod.splits sum.splits)

lemma setSubscription_returns:
  "\<forall>fn l. Subscribe l \<notin> set (bodies fn (Some (toStore now R))) \<Longrightarrow>
   \<exists>y. setSubscription config bodies now R w = Some y"
  using notify_returns [of bodies "Some (toStore now R)" config]
  by (auto simp: setSubscription_def split: prod.splits sum.splits)

lemma clearSubscription_returns:
  "\<forall>fn l. Subscribe l \<notin> set (bodies fn None) \<Longrightarrow>
   \<exists>y. clearSubscription config bodies w = Some y"
  using notify_returns [of bodies None config]
  by (auto simp: clearSubscription_def split: prod.splits sum.splits)

text \<open>
  A walk that never returns: the one registered listener, when called, unsubscribes itself
  and subscribes itself again, so each call appends it behind the position of the walk.
\<close>

lemma forEach_resubscribing_listener:
  assumes run: "forEach (\<lambda>l v. [Unsubscribe 0, Subscribe 0 :: 'e action]) v i w = Some y"
  shows "listeners w \<noteq> replicate i None @ [Some 0]"
  using run
proof (induction rule: forEach_induct)
  case (finished i w)
  then show ?case by auto
next
  case (empty_slot i w y)
  then show ?case by (auto simp: nth_append)
next
  case (thrown i w fn e w1)
  then show ?case by (simp add: invoke_def)
next
  case (called i w fn w1 y)
  show ?case
  proof
    assume I: "listeners w = replicate i None @ [Some 0]"
    with called.hyps(3) have "listeners w1 = replicate (Suc i) None @ [Some 0]"
      by (auto simp: invoke_def subscribe_def unsubscribe_def set_add_def set_delete_def
          replicate_append_same)
    with called.IH show False by simp
  qed
qed

lemma forEach_never_returns:
  "forEach (\<lambda>l v. [Unsubscribe 0, Subscribe 0 :: 'e action]) (v :: 'r option) 0
      ((w :: ('r, 's) world)\<lparr>listeners := [Some 0]\<rparr>) = None"
proof (rule ccontr)
  assume "forEach (\<lambda>l v. [Unsubscribe 0, Subscribe 0 :: 'e action]) (v :: 'r option) 0
      ((w :: ('r, 's) world)\<lparr>listeners := [Some 0]\<rparr>) \<noteq> None"
  then obtain y where
    "forEach (\<lambda>l v. [Unsubscribe 0, Subscribe 0 :: 'e action]) (v :: 'r option) 0
      ((w :: ('r, 's) world)\<lparr>listeners := [Some 0]\<rparr>) = Some y"
    by auto
  from forEach_resubscribing_listener [OF this] show False by simp
qed

text \<open>
  The listener set never holds a reference twice: every operation keeps the members
  distinct.
\<close>

lemma run_actions_distinct:
  "run_actions as w = (r, w') \<Longrightarrow> distinct (members (listeners w)) \<Longrightarrow>
   distinct (members (listeners w'))"
  by (induction as w rule: run_actions.induct)
    (auto simp: subscribe_def unsubscribe_def distinct_set_add distinct_set_delete)

lemma invoke_distinct:
  "invoke c fn v w = (r, w') \<Longrightarrow> distinct (members (listeners w)) \<Longrightarrow>
   distinct (members (listeners w'))"
  unfolding invoke_def
  using run_actions_distinct [of "fn v" "w\<lparr>calls := calls w @ [(c, v)]\<rparr>" r w'] by simp

lemma forEach_distinct:
  "forEach bodies v i w = Some y \<Longrightarrow> distinct (members (listeners w)) \<Longrightarrow>
   distinct (members (listeners (snd y)))"
proof (induction rule: forEach_induct)
  case (thrown i w fn e w1)
  then show ?case by (auto dest: invoke_distinct)
next
  case (called i w fn w1 y)
  then show ?case by (auto dest: invoke_distinct)
qed auto

lemma notify_distinct:
  assumes n: "notify config bodies v w = Some y" and d: "distinct (members (listeners w))"
  shows "distinct (members (listeners (snd y)))"
proof (cases "onChange config")
  case None
  with n d show ?thesis by (auto simp: notify_def dest: forEach_distinct)
next
  case (Some f)
  obtain r w1 where inv: "invoke OnChange f v w = (r, w1)"
    by (cases "invoke OnChange f v w")
  from inv d have d1: "distinct (members (listeners w1))" by (rule invoke_distinct)
  show ?thesis
  proof (cases r)
    case (Inl e)
    with n Some inv d1 show ?thesis by (auto simp: notify_def)
  next
    case (Inr u)
    with n Some inv have "forEach bodies v 0 w1 = Some y" by (simp add: notify_def)
    with d1 show ?thesis by (auto dest: forEach_distinct)
  qed
qed

lemma setSubscription_distinct:
  "setSubscription config bodies now R w = Some y \<Longrightarrow> distinct (members (listeners w)) \<Longrightarrow>
   distinct (members (listeners (snd y)))"
  by (auto simp: setSubscription_def split: prod.splits sum.splits dest: notify_distinct)

lemma clearSubscription_distinct:
  "clearSubscription config bodies w = Some y \<Longrightarrow> distinct (members (listeners w)) \<Longrightarrow>
   distinct (members (listeners (snd y)))"
  by (auto simp: clearSubscription_def split: prod.splits sum.splits dest: notify_distinct)

lemma set_delete_absent: "Some l \<notin> set ls \<Longrightarrow> set_delete l ls = ls"
  by (induction ls) (auto simp: set_delete_def)

lemma invoke_stays_absent:
  "invoke c fn v w = (r, w') \<Longrightarrow> Some l \<notin> set (listeners w) \<Longrightarrow>
   Subscribe l \<notin> set (fn v) \<Longrightarrow> Some l \<notin> set (listeners w')"
  using invoke_new_slot [of c fn v w r w' l 0] by auto

lemma forEach_stays_absent:
  "forEach bodies v i w = Some y \<Longrightarrow> Some l \<notin> set (listeners w) \<Longrightarrow>
   (\<forall>fn. Subscribe l \<notin> set (bodies fn v)) \<Longrightarrow> Some l \<notin> set (listeners (snd y))"
proof (induction rule: forEach_induct)
  case (thrown i w fn e w1)
  then show ?case by (auto dest: invoke_stays_absent)
next
  case (called i w fn w1 y)
  then show ?case by (auto dest: invoke_stays_absent)
qed auto

lemma notify_stays_absent:
  assumes n: "notify config bodies v w = Some y"
    and l: "Some l \<notin> set (listeners w)"
    and b: "\<forall>fn. Subscribe l \<notin> set (bodies fn v)"
    and o: "\<forall>f. onChange config = Some f \<longrightarrow> Subscribe l \<notin> set (f v)"
  shows "Some l \<notin> set (listeners (snd y))"
proof (cases "onChange config")
  case None
  with n have "forEach bodies v 0 w = Some y" by (simp add: notify_def)
  from forEach_stays_absent [OF this l b] show ?thesis .
next
  case (Some f)
  obtain r w1 where inv: "invoke OnChange f v w = (r, w1)"
    by (cases "invoke OnChange f v w")
  from o Some have "Subscribe l \<notin> set (f v)" by simp
  with inv l have l1: "Some l \<notin> set (listeners w1)" by (rule invoke_stays_absent)
  show ?thesis
  proof (cases r)
    case (Inl e)
    with n Some inv l1 show ?thesis by (auto simp: notify_def)
  next
    case (Inr u)
    with n Some inv have "forEach bodies v 0 w1 = Some y" by (simp add: notify_def)
    from forEach_stays_absent [OF this l1 b] show ?thesis .
  qed
qed

text \<open>
  A listener that is not registered, and that no callback subscribes, is not called by a
  mutation and is not registered after it.
\<close>

lemma setSubscription_absent:
  assumes s: "setSubscription config bodies now R w = Some (res, w')"
    and l: "Some l \<notin> set (listeners w)"
    and b: "\<forall>fn x. Subscribe l \<notin> set (bodies fn x)"
    and o: "\<forall>f x. onChange config = Some f \<longrightarrow> Subscribe l \<notin> set (f x)"
  shows "(Listener l, x) \<notin> set (pass_calls w w') \<and> Some l \<notin> set (listeners w') \<and>
         (\<exists>cs. calls w' = calls w @ cs)"
proof -
  obtain r s1 where st: "storage_set (storage config) (storageKey config) (toStore now R)
      (storage_state w) = (r, s1)"
    by (cases "storage_set (storage config) (storageKey config) (toStore now R) (storage_state w)")
  show ?thesis
  proof (cases r)
    case (Inl e)
    with s st l show ?thesis by (auto simp: setSubscription_def pass_calls_def)
  next
    case (Inr u)
    let ?w1 = "w\<lparr>storage_state := s1\<rparr>"
    from Inr s st have n: "notify config bodies (Some (toStore now R)) ?w1 = Some (res, w')"
      by (simp add: setSubscription_def)
    have l1: "Some l \<notin> set (listeners ?w1)" using l by simp
    from notify_not_invoked [OF n l1] b o have "(Listener l, x) \<notin> set (pass_calls ?w1 w')"
      by simp
    moreover from notify_stays_absent [OF n l1] b o have "Some l \<notin> set (listeners w')"
      by simp
    moreover from notify_frame [OF n] have "\<exists>cs. calls w' = calls w @ cs"
      by (simp add: frame_def)
    ultimately show ?thesis by simp
  qed
qed

lemma clearSubscription_absent:
  assumes s: "clearSubscription config bodies w = Some (res, w')"
    and l: "Some l \<notin> set (listeners w)"
    and b: "\<forall>fn x. Subscribe l \<notin> set (bodies fn x)"
    and o: "\<forall>f x. onChange config = Some f \<longrightarrow> Subscribe l \<notin> set (f x)"
  shows "(Listener l, x) \<notin> set (pass_calls w w') \<and> Some l \<notin> set (listeners w') \<and>
         (\<exists>cs. calls w' = calls w @ cs)"
proof -
  obtain r s1 where st: "storage_remove (storage config) (storageKey config)
      (storage_state w) = (r, s1)"
    by (cases "storage_remove (storage config) (storageKey config) (storage_state w)")
  show ?thesis
  proof (cases r)
    case (Inl e)
    with s st l show ?thesis by (auto simp: clearSubscription_def pass_calls_def)
  next
    case (Inr u)
    let ?w1 = "w\<lparr>storage_state := s1\<rparr>"
    from Inr s st have n: "notify config bodies None ?w1 = Some (res, w')"
      by (simp add: clearSubscription_def)
    have l1: "Some l \<notin> set (listeners ?w1)" using l by simp
    from notify_not_invoked [OF n l1] b o have "(Listener l, x) \<notin> set (pass_calls ?w1 w')"
      by simp
    moreover from notify_stays_absent [OF n l1] b o have "Some l \<notin> set (listeners w')"
      by simp
    moreover from notify_frame [OF n] have "\<exists>cs. calls w' = calls w @ cs"
      by (simp add: frame_def)
    ultimately show ?thesis by simp
  qed
qed

lemma pass_calls_append:
  "calls b = calls a @ xs \<Longrightarrow> calls c = calls b @ ys \<Longrightarrow>
   pass_calls a c = pass_calls a b @ pass_calls b c"
  by (simp add: pass_calls_def)

lemma run_calls_absent:
  assumes b: "\<forall>fn x. Subscribe l \<notin> set (bodies fn x)"
    and o: "\<forall>f x. onChange config = Some f \<longrightarrow> Subscribe l \<notin> set (f x)"
  shows "run_calls config bodies cs w = Some w' \<Longrightarrow> Some l \<notin> set (listeners w) \<Longrightarrow>
    CallSubscribe l \<notin> set cs \<Longrightarrow>
    (Listener l, x) \<notin> set (pass_calls w w') \<and> Some l \<notin> set (listeners w') \<and>
    (\<exists>xs. calls w' = calls w @ xs)"
proof (induction cs arbitrary: w)
  case Nil
  then show ?case by simp
next
  case (Cons c cs)
  show ?case
  proof (cases c)
    case (CallSet now R)
    with Cons.prems(1) obtain res w1 where
      s: "setSubscription config bodies now R w = Some (res, w1)"
      and r: "run_calls config bodies cs w1 = Some w'"
      by (auto split: option.splits)
    from setSubscription_absent [OF s Cons.prems(2) b o, of x]
    have 1: "(Listener l, x) \<notin> set (pass_calls w w1)" "Some l \<notin> set (listeners w1)"
      and c1: "\<exists>xs. calls w1 = calls w @ xs" by auto
    from Cons.IH [OF r 1(2)] Cons.prems(3)
    have 2: "(Listener l, x) \<notin> set (pass_calls w1 w')" "Some l \<notin> set (listeners w')"
      and c2: "\<exists>ys. calls w' = calls w1 @ ys" by auto
    from c1 c2 obtain xs ys where e: "calls w1 = calls w @ xs" "calls w' = calls w1 @ ys"
      by blast
    from pass_calls_append [OF e] 1 2 e show ?thesis by auto
  next
    case CallClear
    with Cons.prems(1) obtain res w1 where
      s: "clearSubscription config bodies w = Some (res, w1)"
      and r: "run_calls config bodies cs w1 = Some w'"
      by (auto split: option.splits)
    from clearSubscription_absent [OF s Cons.prems(2) b o, of x]
    have 1: "(Listener l, x) \<notin> set (pass_calls w w1)" "Some l \<notin> set (listeners w1)"
      and c1: "\<exists>xs. calls w1 = calls w @ xs" by auto
    from Cons.IH [OF r 1(2)] Cons.prems(3)
    have 2: "(Listener l, x) \<notin> set (pass_calls w1 w')" "Some l \<notin> set (listeners w')"
      and c2: "\<exists>ys. calls w' = calls w1 @ ys" by auto
    from c1 c2 obtain xs ys where e: "calls w1 = calls w @ xs" "calls w' = calls w1 @ ys"
      by blast
    from pass_calls_append [OF e] 1 2 e show ?thesis by auto
  next
    case (CallSubscribe k)
    with Cons.prems have r: "run_calls config bodies cs (subscribe k w) = Some w'"
      and ne: "k \<noteq> l" by auto
    from ne Cons.prems(2) have "Some l \<notin> set (listeners (subscribe k w))"
      by (auto simp: subscribe_def set_add_def)
    from Cons.IH [OF r this] Cons.prems(3) show ?thesis
      by (auto simp: pass_calls_def subscribe_def)
  next
    case (CallUnsubscribe k)
    with Cons.prems have r: "run_calls config bodies cs (unsubscribe k w) = Some w'" by auto
    from Cons.prems(2) have "Some l \<notin> set (listeners (unsubscribe k w))"
      by (auto simp: unsubscribe_def set_delete_def)
    from Cons.IH [OF r this] Cons.prems(3) show ?thesis
      by (auto simp: pass_calls_def unsubscribe_def)
  qed
qed

section \<open>The claims\<close>

text \<open>
  C1. As stated the claim fails: the pass takes no snapshot, it walks the live listener set
  in insertion order. What holds: when a pass returns without a throw, every listener that
  is registered at its end has been called in it; so a listener that a callback registers
  during the pass, and that stays registered, is called in that same pass. From any point
  of the walk on, a listener that no slot at or after the position of the walk holds (it
  was never registered, it has been unsubscribed before its turn, or the walk has passed
  it) is not called in the rest of the pass, unless a callback subscribes it again.
\<close>

theorem pass_walks_live_set:
  "(notify config bodies v w = Some (Inr (), w') \<and> Some l \<in> set (listeners w') \<longrightarrow>
      (Listener l, v) \<in> set (pass_calls w w')) \<and>
   (forEach bodies v i w = Some (res, w') \<and> Some l \<notin> set (drop i (listeners w)) \<and>
    (\<forall>fn. Subscribe l \<notin> set (bodies fn v)) \<longrightarrow>
      (Listener l, x) \<notin> set (pass_calls w w'))"
proof (intro conjI impI)
  assume "notify config bodies v w = Some (Inr (), w') \<and> Some l \<in> set (listeners w')"
  then show "(Listener l, v) \<in> set (pass_calls w w')"
    by (auto intro: notify_reaches)
next
  assume a: "forEach bodies v i w = Some (res, w') \<and> Some l \<notin> set (drop i (listeners w)) \<and>
    (\<forall>fn. Subscribe l \<notin> set (bodies fn v))"
  with forEach_not_invoked [of bodies v i w "(res, w')" l x]
  show "(Listener l, x) \<notin> set (pass_calls w w')" by simp
qed

theorem pass_walks_live_set_witness:
  "notify (test_config None) (\<lambda>l v. if l = 1 then [Subscribe 3, Unsubscribe 2] else []) None
     \<lparr>listeners = [Some 1, Some 2], storage_state = Map.empty, calls = []\<rparr> =
     Some (Inr (),
       \<lparr>listeners = [Some 1, None, Some 3], storage_state = Map.empty,
        calls = [(Listener 1, None), (Listener 3, None)]\<rparr>) \<and>
   (Listener 3, None) \<in> set (pass_calls
     \<lparr>listeners = [Some 1, Some 2],
      storage_state = Map.empty :: string \<rightharpoonup> TestSubscription,
      calls = [] :: (callee \<times> TestSubscription option) list\<rparr>
     \<lparr>listeners = [Some 1, None, Some 3], storage_state = Map.empty,
      calls = [(Listener 1, None), (Listener 3, None)]\<rparr>) \<and>
   forEach (\<lambda>l v. if l = 1 then [Subscribe 3, Unsubscribe 2] else []) None 1
     \<lparr>listeners = [Some 1, None, Some 3],
      storage_state = Map.empty :: string \<rightharpoonup> TestSubscription,
      calls = [(Listener 1, None :: TestSubscription option)]\<rparr> =
     Some (Inr () :: string + unit,
       \<lparr>listeners = [Some 1, None, Some 3], storage_state = Map.empty,
        calls = [(Listener 1, None), (Listener 3, None)]\<rparr>) \<and>
   (Listener 2, None) \<notin> set (pass_calls
     \<lparr>listeners = [Some 1, None, Some 3],
      storage_state = Map.empty :: string \<rightharpoonup> TestSubscription,
      calls = [(Listener 1, None :: TestSubscription option)]\<rparr>
     \<lparr>listeners = [Some 1, None, Some 3], storage_state = Map.empty,
      calls = [(Listener 1, None), (Listener 3, None)]\<rparr>)"
proof -
  let ?bodies = "\<lambda>(l :: lref) (v :: TestSubscription option).
      if l = 1 then [Subscribe 3, Unsubscribe 2 :: string action] else []"
  let ?w = "\<lparr>listeners = [Some 1, Some 2],
      storage_state = Map.empty :: string \<rightharpoonup> TestSubscription,
      calls = [] :: (callee \<times> TestSubscription option) list\<rparr>"
  let ?w1 = "\<lparr>listeners = [Some 1, None, Some 3],
      storage_state = Map.empty :: string \<rightharpoonup> TestSubscription,
      calls = [(Listener 1, None :: TestSubscription option)]\<rparr>"
  let ?w' = "\<lparr>listeners = [Some 1, None, Some 3],
      storage_state = Map.empty :: string \<rightharpoonup> TestSubscription,
      calls = [(Listener 1, None :: TestSubscription option), (Listener 3, None)]\<rparr>"
  have run: "notify (test_config None) ?bodies None ?w = Some (Inr (), ?w')"
    by (simp add: notify_def test_config_def forEach.simps invoke_def subscribe_def
        unsubscribe_def set_add_def set_delete_def)
  have rest: "forEach ?bodies None 1 ?w1 = Some (Inr (), ?w')"
    by (simp add: forEach.simps invoke_def)
  have reg: "Some 3 \<in> set (listeners ?w')" by simp
  have gone: "Some 2 \<notin> set (drop 1 (listeners ?w1))" by simp
  have quiet: "\<forall>fn. Subscribe 2 \<notin> set (?bodies fn None)" by simp
  have a: "(Listener 3, None) \<in> set (pass_calls ?w ?w')"
    using pass_walks_live_set [THEN conjunct1, rule_format,
        of "test_config None" ?bodies None ?w ?w' 3] run reg
    by blast
  have b: "(Listener 2, None) \<notin> set (pass_calls ?w1 ?w')"
    using pass_walks_live_set [THEN conjunct2, rule_format,
        of ?bodies None 1 ?w1 "Inr ()" ?w' 2 None] rest gone quiet
    by blast
  from run a rest b show ?thesis by (intro conjI)
qed

text \<open>
  The input at which the claim as stated fails: listener 1 alone is registered; when it is
  called it subscribes listener 2. Listener 2, registered during the pass, is called in
  that same pass.
\<close>

theorem listener_registered_during_pass_is_called:
  "setSubscription (test_config None) (\<lambda>l v. if l = 1 then [Subscribe 2] else [])
       ''2026-11-02T22:34:00.000Z''
       \<lparr>active = True, updatedAt = '''', plan = Pro\<rparr>
       \<lparr>listeners = [Some 1], storage_state = Map.empty, calls = []\<rparr> =
     Some (Inr (),
       \<lparr>listeners = [Some 1, Some 2],
        storage_state = [STORAGE_KEY \<mapsto>
          \<lparr>active = True, updatedAt = ''2026-11-02T22:34:00.000Z'', plan = Pro\<rparr>],
        calls = [(Listener 1,
            Some \<lparr>active = True, updatedAt = ''2026-11-02T22:34:00.000Z'', plan = Pro\<rparr>),
          (Listener 2,
            Some \<lparr>active = True, updatedAt = ''2026-11-02T22:34:00.000Z'', plan = Pro\<rparr>)]\<rparr>)"
  by (simp add: setSubscription_def test_config_def createMockStorage_def toStore_def
      notify_def forEach.simps invoke_def subscribe_def set_add_def)

text \<open>
  C2. As stated the claim fails: a caller's \<open>updatedAt\<close> that is not empty is stored as it
  is, whatever it holds. What holds: \<open>setSubscription\<close> returns whenever no listener
  subscribes a listener during the pass, and when it returns the record it handed to the
  storage adapter (with the in-memory adapter: the record the store holds under the
  configured key) has an \<open>updatedAt\<close> that is not empty, and that is a valid ISO-8601
  timestamp when the caller left \<open>updatedAt\<close> empty (it is then the string of
  \<^verbatim>\<open>new Date().toISOString()\<close>) or supplied a valid one.
\<close>

theorem setSubscription_updatedAt_valid:
  "((\<forall>fn x l. Subscribe l \<notin> set (bodies fn x)) \<longrightarrow>
      (\<exists>res w'. setSubscription config bodies now R w = Some (res, w'))) \<and>
   (is_iso8601 now \<and> setSubscription config bodies now R w = Some (res, w') \<longrightarrow>
      (\<exists>r. storage_state w' =
             snd (storage_set (storage config) (storageKey config) r (storage_state w)) \<and>
           (storage config = createMockStorage \<longrightarrow>
              storage_state w' (storageKey config) = Some r) \<and>
           updatedAt r \<noteq> [] \<and>
           (updatedAt R \<noteq> [] \<longrightarrow> updatedAt r = updatedAt R) \<and>
           (updatedAt R = [] \<or> is_iso8601 (updatedAt R) \<longrightarrow> is_iso8601 (updatedAt r))))"
proof (rule conjI; rule impI)
  assume "\<forall>fn x l. Subscribe l \<notin> set (bodies fn x)"
  then show "\<exists>res w'. setSubscription config bodies now R w = Some (res, w')"
    using setSubscription_returns [of bodies now R config w] by auto
next
  assume a: "is_iso8601 now \<and> setSubscription config bodies now R w = Some (res, w')"
  then have iso: "is_iso8601 now"
    and run: "setSubscription config bodies now R w = Some (res, w')"
    by simp_all
  have 1: "storage_state w' =
      snd (storage_set (storage config) (storageKey config) (toStore now R) (storage_state w))"
    using setSubscription_storage [OF run] by simp
  then have 2: "storage config = createMockStorage \<longrightarrow>
      storage_state w' (storageKey config) = Some (toStore now R)"
    by (simp add: createMockStorage_def)
  have 3: "updatedAt (toStore now R) \<noteq> []"
    using is_iso8601_nonempty [OF iso] by (simp add: toStore_def)
  have 4: "updatedAt R \<noteq> [] \<longrightarrow> updatedAt (toStore now R) = updatedAt R"
    by (simp add: toStore_def)
  have 5: "updatedAt R = [] \<or> is_iso8601 (updatedAt R) \<longrightarrow> is_iso8601 (updatedAt (toStore now R))"
    using iso by (auto simp: toStore_def)
  from 1 2 3 4 5
  show "\<exists>r. storage_state w' =
             snd (storage_set (storage config) (storageKey config) r (storage_state w)) \<and>
           (storage config = createMockStorage \<longrightarrow>
              storage_state w' (storageKey config) = Some r) \<and>
           updatedAt r \<noteq> [] \<and>
           (updatedAt R \<noteq> [] \<longrightarrow> updatedAt r = updatedAt R) \<and>
           (updatedAt R = [] \<or> is_iso8601 (updatedAt R) \<longrightarrow> is_iso8601 (updatedAt r))"
    by blast
qed

theorem setSubscription_updatedAt_valid_witness:
  "is_iso8601 ''2026-11-02T22:34:00.000Z'' \<and>
   setSubscription (test_config None) (\<lambda>l v. []) ''2026-11-02T22:34:00.000Z''
       \<lparr>active = True, updatedAt = '''', plan = Free\<rparr>
       \<lparr>listeners = [], storage_state = Map.empty, calls = []\<rparr> =
     Some (Inr (),
       \<lparr>listeners = [],
        storage_state = [STORAGE_KEY \<mapsto>
          \<lparr>active = True, updatedAt = ''2026-11-02T22:34:00.000Z'', plan = Free\<rparr>],
        calls = []\<rparr>) \<and>
   (\<exists>r. [STORAGE_KEY \<mapsto>
          \<lparr>active = True, updatedAt = ''2026-11-02T22:34:00.000Z'', plan = Free\<rparr>] STORAGE_KEY =
        Some r \<and> updatedAt r \<noteq> [] \<and> is_iso8601 (updatedAt r))"
proof -
  have iso: "is_iso8601 ''2026-11-02T22:34:00.000Z''"
    by (simp add: is_iso8601_def is_digit_def number_def digit_val_def days_in_month_def)
  have run: "setSubscription (test_config None) (\<lambda>l v. []) ''2026-11-02T22:34:00.000Z''
       \<lparr>active = True, updatedAt = '''', plan = Free\<rparr>
       \<lparr>listeners = [], storage_state = Map.empty, calls = []\<rparr> =
     Some (Inr (),
       \<lparr>listeners = [],
        storage_state = [STORAGE_KEY \<mapsto>
          \<lparr>active = True, updatedAt = ''2026-11-02T22:34:00.000Z'', plan = Free\<rparr>],
        calls = []\<rparr>)"
    by (simp add: setSubscription_def test_config_def createMockStorage_def toStore_def
        notify_def forEach.simps invoke_def)
  have cfg: "storage (test_config None) = createMockStorage"
    and key: "storageKey (test_config None) = STORAGE_KEY"
    by (simp_all add: test_config_def)
  from setSubscription_updatedAt_valid [THEN conjunct2, rule_format, OF conjI [OF iso run]]
  have "\<exists>r. [STORAGE_KEY \<mapsto>
          \<lparr>active = True, updatedAt = ''2026-11-02T22:34:00.000Z'', plan = Free\<rparr>] STORAGE_KEY =
        Some r \<and> updatedAt r \<noteq> [] \<and> is_iso8601 (updatedAt r)"
    by (elim exE conjE) (simp add: cfg key)
  with iso run show ?thesis by (intro conjI)
qed

text \<open>
  The input at which the claim as stated fails: the caller supplies the \<open>updatedAt\<close>
  \<^verbatim>\<open>'yesterday'\<close>; the write succeeds and the store holds \<^verbatim>\<open>'yesterday'\<close>.
\<close>

theorem setSubscription_keeps_malformed_updatedAt:
  "setSubscription (test_config None) (\<lambda>l v. []) ''2026-11-02T22:34:00.000Z''
       \<lparr>active = True, updatedAt = ''yesterday'', plan = Free\<rparr>
       \<lparr>listeners = [], storage_state = Map.empty, calls = []\<rparr> =
     Some (Inr (),
       \<lparr>listeners = [],
        storage_state = [STORAGE_KEY \<mapsto>
          \<lparr>active = True, updatedAt = ''yesterday'', plan = Free\<rparr>],
        calls = []\<rparr>) \<and>
   \<not> is_iso8601 ''yesterday''"
  by (simp add: setSubscription_def test_config_def createMockStorage_def toStore_def
      notify_def forEach.simps invoke_def is_iso8601_def)

text \<open>
  C3. As stated the claim fails for \<open>setSubscription\<close> and \<open>clearSubscription\<close>: they
  also fail when the storage call has succeeded and a callback throws. What holds:
  \<open>getSubscription\<close> returns what the adapter's read returns, value or failure, so it fails
  exactly when the read fails, with the same error. When the adapter's write (or removal)
  fails, \<open>setSubscription\<close> (or \<open>clearSubscription\<close>) fails with the same error, no
  callback is called and the listeners are as before. When no callback throws, the two
  operations fail only with the error of a failed storage call.
\<close>

theorem storage_failure_propagates:
  "fst (getSubscription config w) =
     fst (storage_get (storage config) (storageKey config) (storage_state w)) \<and>
   (storage_set (storage config) (storageKey config) (toStore now R) (storage_state w) =
      (Inl e, s') \<longrightarrow>
    setSubscription config bodies now R w = Some (Inl e, w\<lparr>storage_state := s'\<rparr>)) \<and>
   (storage_remove (storage config) (storageKey config) (storage_state w) = (Inl e, s') \<longrightarrow>
    clearSubscription config bodies w = Some (Inl e, w\<lparr>storage_state := s'\<rparr>)) \<and>
   ((\<forall>fn x e'. Throw e' \<notin> set (bodies fn x)) \<and>
    (\<forall>f x e'. onChange config = Some f \<longrightarrow> Throw e' \<notin> set (f x)) \<longrightarrow>
    (setSubscription config bodies now R w = Some (Inl e, w') \<longrightarrow>
       fst (storage_set (storage config) (storageKey config) (toStore now R) (storage_state w)) =
         Inl e) \<and>
    (clearSubscription config bodies w = Some (Inl e, w') \<longrightarrow>
       fst (storage_remove (storage config) (storageKey config) (storage_state w)) = Inl e))"
proof (intro conjI impI)
  show "fst (getSubscription config w) =
     fst (storage_get (storage config) (storageKey config) (storage_state w))"
    by (simp add: getSubscription_def split: prod.splits)
next
  assume "storage_set (storage config) (storageKey config) (toStore now R) (storage_state w) =
      (Inl e, s')"
  then show "setSubscription config bodies now R w = Some (Inl e, w\<lparr>storage_state := s'\<rparr>)"
    by (simp add: setSubscription_def)
next
  assume "storage_remove (storage config) (storageKey config) (storage_state w) = (Inl e, s')"
  then show "clearSubscription config bodies w = Some (Inl e, w\<lparr>storage_state := s'\<rparr>)"
    by (simp add: clearSubscription_def)
next
  assume nt: "(\<forall>fn x e'. Throw e' \<notin> set (bodies fn x)) \<and>
    (\<forall>f x e'. onChange config = Some f \<longrightarrow> Throw e' \<notin> set (f x))"
    and s: "setSubscription config bodies now R w = Some (Inl e, w')"
  obtain r s1 where st: "storage_set (storage config) (storageKey config) (toStore now R)
      (storage_state w) = (r, s1)"
    by (cases "storage_set (storage config) (storageKey config) (toStore now R) (storage_state w)")
  show "fst (storage_set (storage config) (storageKey config) (toStore now R) (storage_state w)) =
         Inl e"
  proof (cases r)
    case (Inl e1)
    with s st show ?thesis by (simp add: setSubscription_def)
  next
    case (Inr u)
    with s st have "notify config bodies (Some (toStore now R)) (w\<lparr>storage_state := s1\<rparr>) =
        Some (Inl e, w')"
      by (simp add: setSubscription_def)
    from notify_no_throw [OF this] nt show ?thesis by auto
  qed
next
  assume nt: "(\<forall>fn x e'. Throw e' \<notin> set (bodies fn x)) \<and>
    (\<forall>f x e'. onChange config = Some f \<longrightarrow> Throw e' \<notin> set (f x))"
    and s: "clearSubscription config bodies w = Some (Inl e, w')"
  obtain r s1 where st: "storage_remove (storage config) (storageKey config)
      (storage_state w) = (r, s1)"
    by (cases "storage_remove (storage config) (storageKey config) (storage_state w)")
  show "fst (storage_remove (storage config) (storageKey config) (storage_state w)) = Inl e"
  proof (cases r)
    case (Inl e1)
    with s st show ?thesis by (simp add: clearSubscription_def)
  next
    case (Inr u)
    with s st have "notify config bodies None (w\<lparr>storage_state := s1\<rparr>) = Some (Inl e, w')"
      by (simp add: clearSubscription_def)
    from notify_no_throw [OF this] nt show ?thesis by auto
  qed
qed

theorem storage_failure_propagates_witness:
  "storage_set
     (storage \<lparr>storage = \<lparr>storage_get = (\<lambda>key s. (Inl ''quota'', s)),
                            storage_set = (\<lambda>key v s. (Inl ''quota'', s)),
                            storage_remove = (\<lambda>key s. (Inl ''quota'', s))\<rparr>,
               storageKey = STORAGE_KEY, onChange = Some (\<lambda>v. [])\<rparr>)
     STORAGE_KEY
     (toStore ''2026-11-02T22:34:00.000Z'' \<lparr>active = True, updatedAt = '''', plan = Pro\<rparr>) () =
     (Inl ''quota'', ()) \<and>
   setSubscription
     \<lparr>storage = \<lparr>storage_get = (\<lambda>key s. (Inl ''quota'', s)),
                  storage_set = (\<lambda>key v s. (Inl ''quota'', s)),
                  storage_remove = (\<lambda>key s. (Inl ''quota'', s))\<rparr>,
      storageKey = STORAGE_KEY, onChange = Some (\<lambda>v. [])\<rparr>
     (\<lambda>l v. []) ''2026-11-02T22:34:00.000Z''
     \<lparr>active = True, updatedAt = '''', plan = Pro\<rparr>
     \<lparr>listeners = [Some 0], storage_state = (), calls = []\<rparr> =
     Some (Inl ''quota'', \<lparr>listeners = [Some 0], storage_state = (), calls = []\<rparr>) \<and>
   clearSubscription
     \<lparr>storage = \<lparr>storage_get = (\<lambda>key s. (Inl ''quota'', s)),
                  storage_set = (\<lambda>key (v :: TestSubscription) s. (Inl ''quota'', s)),
                  storage_remove = (\<lambda>key s. (Inl ''quota'', s))\<rparr>,
      storageKey = STORAGE_KEY, onChange = Some (\<lambda>v. [])\<rparr>
     (\<lambda>l v. [])
     \<lparr>listeners = [Some 0], storage_state = (), calls = []\<rparr> =
     Some (Inl ''quota'', \<lparr>listeners = [Some 0], storage_state = (), calls = []\<rparr>)"
proof -
  let ?cfg = "\<lparr>storage = \<lparr>storage_get = (\<lambda>key (s :: unit). (Inl ''quota'', s)),
                  storage_set = (\<lambda>key (v :: TestSubscription) s. (Inl ''quota'', s)),
                  storage_remove = (\<lambda>key s. (Inl ''quota'', s))\<rparr>,
      storageKey = STORAGE_KEY, onChange = Some (\<lambda>v. ([] :: string action list))\<rparr>"
  let ?w = "\<lparr>listeners = [Some 0], storage_state = (),
      calls = ([] :: (callee \<times> TestSubscription option) list)\<rparr>"
  have st: "storage_set (storage ?cfg) (storageKey ?cfg)
     (toStore ''2026-11-02T22:34:00.000Z'' \<lparr>active = True, updatedAt = '''', plan = Pro\<rparr>)
     (storage_state ?w) = (Inl ''quota'', ())"
    by simp
  have rm: "storage_remove (storage ?cfg) (storageKey ?cfg) (storage_state ?w) =
     (Inl ''quota'', ())"
    by simp
  have 1: "setSubscription ?cfg (\<lambda>l v. []) ''2026-11-02T22:34:00.000Z''
     \<lparr>active = True, updatedAt = '''', plan = Pro\<rparr> ?w = Some (Inl ''quota'', ?w)"
    using storage_failure_propagates [THEN conjunct2, THEN conjunct1, rule_format, OF st,
        where bodies = "\<lambda>l v. []"]
    by simp
  have 2: "clearSubscription ?cfg (\<lambda>l v. []) ?w = Some (Inl ''quota'', ?w)"
    using storage_failure_propagates [THEN conjunct2, THEN conjunct2, THEN conjunct1,
        rule_format, OF rm, where bodies = "\<lambda>l v. []"]
    by simp
  from st 1 2 show ?thesis by simp
qed

text \<open>
  The input at which the claim as stated fails: the write succeeds and the one listener
  throws; \<open>setSubscription\<close> fails with the value thrown.
\<close>

theorem setSubscription_fails_after_successful_write:
  "storage_set (storage (test_config None)) (storageKey (test_config None))
     (toStore ''2026-11-02T22:34:00.000Z'' \<lparr>active = True, updatedAt = '''', plan = Pro\<rparr>)
     Map.empty =
     (Inr (), [STORAGE_KEY \<mapsto>
        \<lparr>active = True, updatedAt = ''2026-11-02T22:34:00.000Z'', plan = Pro\<rparr>]) \<and>
   setSubscription (test_config None) (\<lambda>l v. [Throw ''boom'']) ''2026-11-02T22:34:00.000Z''
     \<lparr>active = True, updatedAt = '''', plan = Pro\<rparr>
     \<lparr>listeners = [Some 0], storage_state = Map.empty, calls = []\<rparr> =
     Some (Inl ''boom'',
       \<lparr>listeners = [Some 0],
        storage_state = [STORAGE_KEY \<mapsto>
          \<lparr>active = True, updatedAt = ''2026-11-02T22:34:00.000Z'', plan = Pro\<rparr>],
        calls = [(Listener 0,
          Some \<lparr>active = True, updatedAt = ''2026-11-02T22:34:00.000Z'', plan = Pro\<rparr>)]\<rparr>)"
  by (simp add: setSubscription_def test_config_def createMockStorage_def toStore_def
      notify_def forEach.simps invoke_def)

text \<open>
  C4. \<open>setSubscription\<close> returns whenever no listener subscribes a listener during the
  pass. When it returns, the record that it handed to the storage adapter is the caller's
  record with \<open>updatedAt\<close> replaced by the current instant (the string of
  \<^verbatim>\<open>new Date().toISOString()\<close>) when the caller's \<open>updatedAt\<close> is empty, and with the
  caller's \<open>updatedAt\<close> kept exactly when it is not empty. With the in-memory adapter this
  record is what the store holds under the configured key afterwards and what a following
  \<open>getSubscription\<close> returns.
\<close>

theorem setSubscription_updatedAt:
  "((\<forall>fn x l. Subscribe l \<notin> set (bodies fn x)) \<longrightarrow>
      (\<exists>res w'. setSubscription config bodies now R w = Some (res, w'))) \<and>
   (setSubscription config bodies now R w = Some (res, w') \<longrightarrow>
      storage_state w' =
        snd (storage_set (storage config) (storageKey config)
               (R\<lparr>updatedAt := (if updatedAt R = [] then now else updatedAt R)\<rparr>)
               (storage_state w)) \<and>
      (storage config = createMockStorage \<longrightarrow>
         storage_state w' (storageKey config) =
           Some (R\<lparr>updatedAt := (if updatedAt R = [] then now else updatedAt R)\<rparr>) \<and>
         fst (getSubscription config w') =
           Inr (Some (R\<lparr>updatedAt := (if updatedAt R = [] then now else updatedAt R)\<rparr>))))"
proof (rule conjI; rule impI)
  assume "\<forall>fn x l. Subscribe l \<notin> set (bodies fn x)"
  then show "\<exists>res w'. setSubscription config bodies now R w = Some (res, w')"
    using setSubscription_returns [of bodies now R config w] by auto
next
  assume run: "setSubscription config bodies now R w = Some (res, w')"
  have ts: "toStore now R = R\<lparr>updatedAt := (if updatedAt R = [] then now else updatedAt R)\<rparr>"
    by (simp add: toStore_def)
  have "storage_state w' =
      snd (storage_set (storage config) (storageKey config) (toStore now R) (storage_state w))"
    using setSubscription_storage [OF run] by simp
  then show "storage_state w' =
        snd (storage_set (storage config) (storageKey config)
               (R\<lparr>updatedAt := (if updatedAt R = [] then now else updatedAt R)\<rparr>)
               (storage_state w)) \<and>
      (storage config = createMockStorage \<longrightarrow>
         storage_state w' (storageKey config) =
           Some (R\<lparr>updatedAt := (if updatedAt R = [] then now else updatedAt R)\<rparr>) \<and>
         fst (getSubscription config w') =
           Inr (Some (R\<lparr>updatedAt := (if updatedAt R = [] then now else updatedAt R)\<rparr>)))"
    unfolding ts by (simp add: getSubscription_def createMockStorage_def)
qed

theorem setSubscription_updatedAt_witness:
  "setSubscription (test_config None) (\<lambda>l v. []) ''2026-11-02T22:34:00.000Z''
       \<lparr>active = True, updatedAt = '''', plan = Pro\<rparr>
       \<lparr>listeners = [Some 0], storage_state = Map.empty, calls = []\<rparr> =
     Some (Inr (),
       \<lparr>listeners = [Some 0],
        storage_state = [STORAGE_KEY \<mapsto>
          \<lparr>active = True, updatedAt = ''2026-11-02T22:34:00.000Z'', plan = Pro\<rparr>],
        calls = [(Listener 0,
          Some \<lparr>active = True, updatedAt = ''2026-11-02T22:34:00.000Z'', plan = Pro\<rparr>)]\<rparr>) \<and>
   storage (test_config None) = createMockStorage \<and>
   fst (getSubscription (test_config None)
       \<lparr>listeners = [Some 0],
        storage_state = [STORAGE_KEY \<mapsto>
          \<lparr>active = True, updatedAt = ''2026-11-02T22:34:00.000Z'', plan = Pro\<rparr>],
        calls = [(Listener 0,
          Some \<lparr>active = True, updatedAt = ''2026-11-02T22:34:00.000Z'', plan = Pro\<rparr>)]\<rparr>) =
     Inr (Some \<lparr>active = True, updatedAt = ''2026-11-02T22:34:00.000Z'', plan = Pro\<rparr>)"
proof -
  have cfg: "storage (test_config None) = createMockStorage"
    by (simp add: test_config_def)
  have run: "setSubscription (test_config None) (\<lambda>l v. []) ''2026-11-02T22:34:00.000Z''
       \<lparr>active = True, updatedAt = '''', plan = Pro\<rparr>
       \<lparr>listeners = [Some 0], storage_state = Map.empty, calls = []\<rparr> =
     Some (Inr (),
       \<lparr>listeners = [Some 0],
        storage_state = [STORAGE_KEY \<mapsto>
          \<lparr>active = True, updatedAt = ''2026-11-02T22:34:00.000Z'', plan = Pro\<rparr>],
        calls = [(Listener 0,
          Some \<lparr>active = True, updatedAt = ''2026-11-02T22:34:00.000Z'', plan = Pro\<rparr>)]\<rparr>)"
    by (simp add: setSubscription_def test_config_def createMockStorage_def toStore_def
        notify_def forEach.simps invoke_def)
  from setSubscription_updatedAt [THEN conjunct2, rule_format, OF run, THEN conjunct2, rule_format, OF cfg] cfg run
  show ?thesis by simp
qed

text \<open>
  C5. As stated the claim fails: the listeners are walked in the live set, so a callback
  that unsubscribes or subscribes a listener during the pass can make a registered listener
  be called twice or not at all. What holds: when the write (or the removal) has succeeded,
  the calls of the pass are the call of \<open>onChange\<close>, when there is one, followed by calls
  of listeners only, all with the same argument: the record as written, with the
  \<open>updatedAt\<close> that was filled in, for \<open>setSubscription\<close>, and the absent value for
  \<open>clearSubscription\<close>. When no callback called in the pass throws or changes the listener
  set, the operation succeeds and the listeners called are the registered ones, each exactly
  once, in the order of their registration.
\<close>

theorem notification_pass:
  "(setSubscription config bodies now R w = Some (res, w') \<and>
    fst (storage_set (storage config) (storageKey config) (toStore now R) (storage_state w)) =
      Inr () \<longrightarrow>
    (\<exists>ls. pass_calls w w' =
       onChange_calls config (Some (toStore now R)) @ listener_calls (Some (toStore now R)) ls)) \<and>
   (clearSubscription config bodies w = Some (res, w') \<and>
    fst (storage_remove (storage config) (storageKey config) (storage_state w)) = Inr () \<longrightarrow>
    (\<exists>ls. pass_calls w w' = onChange_calls config None @ listener_calls None ls)) \<and>
   ((\<forall>l \<in> set (members (listeners w)). bodies l (Some (toStore now R)) = []) \<and>
    (\<forall>f. onChange config = Some f \<longrightarrow> f (Some (toStore now R)) = []) \<and>
    storage_set (storage config) (storageKey config) (toStore now R) (storage_state w) =
      (Inr (), s') \<longrightarrow>
    setSubscription config bodies now R w =
      Some (Inr (), w\<lparr>storage_state := s',
                       calls := calls w @ onChange_calls config (Some (toStore now R)) @
                         listener_calls (Some (toStore now R)) (members (listeners w))\<rparr>)) \<and>
   ((\<forall>l \<in> set (members (listeners w)). bodies l None = []) \<and>
    (\<forall>f. onChange config = Some f \<longrightarrow> f None = []) \<and>
    storage_remove (storage config) (storageKey config) (storage_state w) = (Inr (), s') \<longrightarrow>
    clearSubscription config bodies w =
      Some (Inr (), w\<lparr>storage_state := s',
                       calls := calls w @ onChange_calls config None @
                         listener_calls None (members (listeners w))\<rparr>)) \<and>
   (distinct (members (listeners w)) \<longrightarrow>
    (\<forall>l \<in> set (members (listeners w)).
       count_list (listener_calls v (members (listeners w))) (Listener l, v) = 1))"
proof (intro conjI impI)
  assume a: "setSubscription config bodies now R w = Some (res, w') \<and>
    fst (storage_set (storage config) (storageKey config) (toStore now R) (storage_state w)) =
      Inr ()"
  obtain r s1 where st: "storage_set (storage config) (storageKey config) (toStore now R)
      (storage_state w) = (r, s1)"
    by (cases "storage_set (storage config) (storageKey config) (toStore now R) (storage_state w)")
  with a have "notify config bodies (Some (toStore now R)) (w\<lparr>storage_state := s1\<rparr>) =
      Some (res, w')"
    by (auto simp: setSubscription_def)
  from notify_shape [OF this]
  show "\<exists>ls. pass_calls w w' =
       onChange_calls config (Some (toStore now R)) @ listener_calls (Some (toStore now R)) ls"
    by simp
next
  assume a: "clearSubscription config bodies w = Some (res, w') \<and>
    fst (storage_remove (storage config) (storageKey config) (storage_state w)) = Inr ()"
  obtain r s1 where st: "storage_remove (storage config) (storageKey config)
      (storage_state w) = (r, s1)"
    by (cases "storage_remove (storage config) (storageKey config) (storage_state w)")
  with a have "notify config bodies None (w\<lparr>storage_state := s1\<rparr>) = Some (res, w')"
    by (auto simp: clearSubscription_def)
  from notify_shape [OF this]
  show "\<exists>ls. pass_calls w w' = onChange_calls config None @ listener_calls None ls"
    by simp
next
  assume a: "(\<forall>l \<in> set (members (listeners w)). bodies l (Some (toStore now R)) = []) \<and>
    (\<forall>f. onChange config = Some f \<longrightarrow> f (Some (toStore now R)) = []) \<and>
    storage_set (storage config) (storageKey config) (toStore now R) (storage_state w) =
      (Inr (), s')"
  then have "notify config bodies (Some (toStore now R)) (w\<lparr>storage_state := s'\<rparr>) =
      Some (Inr (), w\<lparr>storage_state := s'\<rparr>\<lparr>calls := calls (w\<lparr>storage_state := s'\<rparr>) @
        onChange_calls config (Some (toStore now R)) @
        listener_calls (Some (toStore now R)) (members (listeners (w\<lparr>storage_state := s'\<rparr>)))\<rparr>)"
    by (intro notify_passive) simp_all
  with a show "setSubscription config bodies now R w =
      Some (Inr (), w\<lparr>storage_state := s',
                       calls := calls w @ onChange_calls config (Some (toStore now R)) @
                         listener_calls (Some (toStore now R)) (members (listeners w))\<rparr>)"
    by (simp add: setSubscription_def)
next
  assume a: "(\<forall>l \<in> set (members (listeners w)). bodies l None = []) \<and>
    (\<forall>f. onChange config = Some f \<longrightarrow> f None = []) \<and>
    storage_remove (storage config) (storageKey config) (storage_state w) = (Inr (), s')"
  then have "notify config bodies None (w\<lparr>storage_state := s'\<rparr>) =
      Some (Inr (), w\<lparr>storage_state := s'\<rparr>\<lparr>calls := calls (w\<lparr>storage_state := s'\<rparr>) @
        onChange_calls config None @
        listener_calls None (members (listeners (w\<lparr>storage_state := s'\<rparr>)))\<rparr>)"
    by (intro notify_passive) simp_all
  with a show "clearSubscription config bodies w =
      Some (Inr (), w\<lparr>storage_state := s',
                       calls := calls w @ onChange_calls config None @
                         listener_calls None (members (listeners w))\<rparr>)"
    by (simp add: clearSubscription_def)
next
  assume "distinct (members (listeners w))"
  then show "\<forall>l \<in> set (members (listeners w)).
       count_list (listener_calls v (members (listeners w))) (Listener l, v) = 1"
    by (simp add: count_listener_calls)
qed

theorem notification_pass_witness:
  "setSubscription (test_config (Some (\<lambda>v. []))) (\<lambda>l v. []) ''2026-11-02T22:34:00.000Z''
       \<lparr>active = True, updatedAt = '''', plan = Pro\<rparr>
       \<lparr>listeners = [Some 0, Some 1], storage_state = Map.empty, calls = []\<rparr> =
     Some (Inr (),
       \<lparr>listeners = [Some 0, Some 1],
        storage_state = [STORAGE_KEY \<mapsto>
          \<lparr>active = True, updatedAt = ''2026-11-02T22:34:00.000Z'', plan = Pro\<rparr>],
        calls = [(OnChange,
            Some \<lparr>active = True, updatedAt = ''2026-11-02T22:34:00.000Z'', plan = Pro\<rparr>),
          (Listener 0,
            Some \<lparr>active = True, updatedAt = ''2026-11-02T22:34:00.000Z'', plan = Pro\<rparr>),
          (Listener 1,
            Some \<lparr>active = True, updatedAt = ''2026-11-02T22:34:00.000Z'', plan = Pro\<rparr>)]\<rparr>)"
proof -
  let ?cfg = "test_config (Some (\<lambda>v. []))"
  let ?R = "\<lparr>active = True, updatedAt = '''', plan = Pro\<rparr>"
  let ?w = "\<lparr>listeners = [Some 0, Some 1], storage_state = Map.empty,
      calls = ([] :: (callee \<times> TestSubscription option) list)\<rparr>"
  let ?s' = "[STORAGE_KEY \<mapsto>
      \<lparr>active = True, updatedAt = ''2026-11-02T22:34:00.000Z'', plan = Pro\<rparr>]"
  have hyp: "(\<forall>l \<in> set (members (listeners ?w)).
        (\<lambda>l v. []) l (Some (toStore ''2026-11-02T22:34:00.000Z'' ?R)) = ([] :: string action list)) \<and>
    (\<forall>f. onChange ?cfg = Some f \<longrightarrow> f (Some (toStore ''2026-11-02T22:34:00.000Z'' ?R)) = []) \<and>
    storage_set (storage ?cfg) (storageKey ?cfg) (toStore ''2026-11-02T22:34:00.000Z'' ?R)
      (storage_state ?w) = (Inr (), ?s')"
    by (simp add: test_config_def createMockStorage_def toStore_def)
  from notification_pass [THEN conjunct2, THEN conjunct2, THEN conjunct1, rule_format, OF hyp]
  show ?thesis
    by (simp add: onChange_calls_def listener_calls_def members_def test_config_def toStore_def
        fun_upd_def)
qed

text \<open>
  The input at which the claim as stated fails: listeners 1 and 2 are registered; listener 2,
  when called, calls the unsubscribe function of listener 1 and subscribes listener 1
  again. Listener 1 is called twice for the one mutation.
\<close>

theorem listener_called_twice_in_one_pass:
  "setSubscription (test_config None)
       (\<lambda>l v. if l = 2 then [Unsubscribe 1, Subscribe 1] else [])
       ''2026-11-02T22:34:00.000Z''
       \<lparr>active = True, updatedAt = '''', plan = Pro\<rparr>
       \<lparr>listeners = [Some 1, Some 2], storage_state = Map.empty, calls = []\<rparr> =
     Some (Inr (),
       \<lparr>listeners = [None, Some 2, Some 1],
        storage_state = [STORAGE_KEY \<mapsto>
          \<lparr>active = True, updatedAt = ''2026-11-02T22:34:00.000Z'', plan = Pro\<rparr>],
        calls = [(Listener 1,
            Some \<lparr>active = True, updatedAt = ''2026-11-02T22:34:00.000Z'', plan = Pro\<rparr>),
          (Listener 2,
            Some \<lparr>active = True, updatedAt = ''2026-11-02T22:34:00.000Z'', plan = Pro\<rparr>),
          (Listener 1,
            Some \<lparr>active = True, updatedAt = ''2026-11-02T22:34:00.000Z'', plan = Pro\<rparr>)]\<rparr>)"
  by (simp add: setSubscription_def test_config_def createMockStorage_def toStore_def
      notify_def forEach.simps invoke_def subscribe_def unsubscribe_def set_add_def
      set_delete_def)

text \<open>
  C6. As stated the claim fails: the unsubscribe function deletes the listener by
  reference each time it is called, so a repeat call made after the listener was subscribed
  again removes the new registration; and a callback that throws ends the pass, so a
  listener that is still registered is not notified. What holds: the unsubscribe function
  that \<open>subscribe l\<close> returned removes \<open>l\<close> and nothing else from the listener set: the
  other listeners stay, in their order. Calling it when \<open>l\<close> is not registered, as in a
  repeat call with no \<open>subscribe l\<close> in between, changes nothing. After the call, through
  any sequence of later calls of \<open>setSubscription\<close>, \<open>clearSubscription\<close>, \<open>subscribe\<close> and
  unsubscribe functions in which nothing subscribes \<open>l\<close> again, \<open>l\<close> is never called and
  stays unregistered. A later pass that returns without a throw has called every listener
  that is registered at its end; when the callbacks neither throw nor change the listener
  set, the listeners called are exactly the earlier ones without \<open>l\<close>.
\<close>

theorem unsubscribe_removes_exactly:
  "members (listeners (unsubscribe l w)) = removeAll l (members (listeners w)) \<and>
   unsubscribe l (unsubscribe l w) = unsubscribe l w \<and>
   (notify config bodies v (unsubscribe l w) = Some (res, w') \<and>
    (\<forall>fn. Subscribe l \<notin> set (bodies fn v)) \<and>
    (\<forall>f. onChange config = Some f \<longrightarrow> Subscribe l \<notin> set (f v)) \<longrightarrow>
    (Listener l, x) \<notin> set (pass_calls (unsubscribe l w) w')) \<and>
   (notify config bodies v (unsubscribe l w) = Some (Inr (), w') \<and>
    Some l' \<in> set (listeners w') \<longrightarrow>
    (Listener l', v) \<in> set (pass_calls (unsubscribe l w) w')) \<and>
   ((\<forall>l' \<in> set (members (listeners w)). l' \<noteq> l \<longrightarrow> bodies l' v = []) \<and>
    (\<forall>f. onChange config = Some f \<longrightarrow> f v = []) \<longrightarrow>
    notify config bodies v (unsubscribe l w) =
      Some (Inr (), (unsubscribe l w)\<lparr>calls := calls w @ onChange_calls config v @
                      listener_calls v (removeAll l (members (listeners w)))\<rparr>)) \<and>
   Some l \<notin> set (listeners (unsubscribe l w)) \<and>
   (Some l \<notin> set (listeners w) \<longrightarrow> unsubscribe l w = w) \<and>
   (run_calls config bodies cs (unsubscribe l w) = Some w'' \<and>
    CallSubscribe l \<notin> set cs \<and>
    (\<forall>fn y. Subscribe l \<notin> set (bodies fn y)) \<and>
    (\<forall>f y. onChange config = Some f \<longrightarrow> Subscribe l \<notin> set (f y)) \<longrightarrow>
    (Listener l, x) \<notin> set (pass_calls (unsubscribe l w) w'') \<and>
    Some l \<notin> set (listeners w''))"
proof (intro conjI impI)
  show m: "members (listeners (unsubscribe l w)) = removeAll l (members (listeners w))"
    by (simp add: unsubscribe_def members_set_delete)
  show "unsubscribe l (unsubscribe l w) = unsubscribe l w"
    by (simp add: unsubscribe_def set_delete_idem)
  show gone: "Some l \<notin> set (listeners (unsubscribe l w))"
    by (simp add: unsubscribe_def set_delete_notin)
  {
    assume a: "notify config bodies v (unsubscribe l w) = Some (res, w') \<and>
      (\<forall>fn. Subscribe l \<notin> set (bodies fn v)) \<and>
      (\<forall>f. onChange config = Some f \<longrightarrow> Subscribe l \<notin> set (f v))"
    with gone notify_not_invoked [of config bodies v "unsubscribe l w" "(res, w')" l x]
    show "(Listener l, x) \<notin> set (pass_calls (unsubscribe l w) w')"
      by simp
  }
  {
    assume "notify config bodies v (unsubscribe l w) = Some (Inr (), w') \<and>
      Some l' \<in> set (listeners w')"
    then show "(Listener l', v) \<in> set (pass_calls (unsubscribe l w) w')"
      by (auto intro: notify_reaches)
  }
  {
    assume a: "(\<forall>l' \<in> set (members (listeners w)). l' \<noteq> l \<longrightarrow> bodies l' v = []) \<and>
      (\<forall>f. onChange config = Some f \<longrightarrow> f v = [])"
    then have "\<forall>l' \<in> set (members (listeners (unsubscribe l w))). bodies l' v = []"
      by (simp add: m)
    with a have "notify config bodies v (unsubscribe l w) =
      Some (Inr (), (unsubscribe l w)\<lparr>calls := calls (unsubscribe l w) @ onChange_calls config v @
                      listener_calls v (members (listeners (unsubscribe l w)))\<rparr>)"
      by (intro notify_passive) simp_all
    then show "notify config bodies v (unsubscribe l w) =
      Some (Inr (), (unsubscribe l w)\<lparr>calls := calls w @ onChange_calls config v @
                      listener_calls v (removeAll l (members (listeners w)))\<rparr>)"
      by (simp add: m) (simp add: unsubscribe_def)
  }
  {
    assume "Some l \<notin> set (listeners w)"
    then show "unsubscribe l w = w"
      by (simp add: unsubscribe_def set_delete_absent)
  }
  {
    assume a: "run_calls config bodies cs (unsubscribe l w) = Some w'' \<and>
      CallSubscribe l \<notin> set cs \<and>
      (\<forall>fn y. Subscribe l \<notin> set (bodies fn y)) \<and>
      (\<forall>f y. onChange config = Some f \<longrightarrow> Subscribe l \<notin> set (f y))"
    then have b: "\<forall>fn y. Subscribe l \<notin> set (bodies fn y)"
      and o: "\<forall>f y. onChange config = Some f \<longrightarrow> Subscribe l \<notin> set (f y)"
      and r: "run_calls config bodies cs (unsubscribe l w) = Some w''"
      and c: "CallSubscribe l \<notin> set cs"
      by simp_all
    from run_calls_absent [OF b o r gone c, of x]
    show "(Listener l, x) \<notin> set (pass_calls (unsubscribe l w) w'')"
      and "Some l \<notin> set (listeners w'')"
      by simp_all
  }
qed

theorem unsubscribe_removes_exactly_witness:
  "notify (test_config None) (\<lambda>l v. []) None
     (unsubscribe 0 \<lparr>listeners = [Some 0, Some 1], storage_state = Map.empty, calls = []\<rparr>) =
     Some (Inr (),
       \<lparr>listeners = [None, Some 1], storage_state = Map.empty,
        calls = [(Listener 1, None)]\<rparr>) \<and>
   (Listener 0, None) \<notin> set (pass_calls
     (unsubscribe 0 \<lparr>listeners = [Some 0, Some 1], storage_state = Map.empty, calls = []\<rparr>)
     \<lparr>listeners = [None, Some 1], storage_state = Map.empty :: string \<rightharpoonup> TestSubscription,
      calls = [(Listener 1, None :: TestSubscription option)]\<rparr>) \<and>
   (Listener 1, None) \<in> set (pass_calls
     (unsubscribe 0 \<lparr>listeners = [Some 0, Some 1], storage_state = Map.empty, calls = []\<rparr>)
     \<lparr>listeners = [None, Some 1], storage_state = Map.empty :: string \<rightharpoonup> TestSubscription,
      calls = [(Listener 1, None :: TestSubscription option)]\<rparr>) \<and>
   run_calls (test_config None) (\<lambda>l v. [])
     [CallSet ''2026-11-02T22:34:00.000Z'' \<lparr>active = True, updatedAt = '''', plan = Pro\<rparr>,
      CallUnsubscribe 0, CallClear]
     (unsubscribe 0 \<lparr>listeners = [Some 0, Some 1], storage_state = Map.empty, calls = []\<rparr>) =
     Some \<lparr>listeners = [None, Some 1], storage_state = Map.empty,
        calls = [(Listener 1,
            Some \<lparr>active = True, updatedAt = ''2026-11-02T22:34:00.000Z'', plan = Pro\<rparr>),
          (Listener 1, None)]\<rparr> \<and>
   (Listener 0, None) \<notin> set (pass_calls
     (unsubscribe 0 \<lparr>listeners = [Some 0, Some 1],
        storage_state = Map.empty :: string \<rightharpoonup> TestSubscription, calls = []\<rparr>)
     \<lparr>listeners = [None, Some 1], storage_state = Map.empty,
        calls = [(Listener 1,
            Some \<lparr>active = True, updatedAt = ''2026-11-02T22:34:00.000Z'', plan = Pro\<rparr>),
          (Listener 1, None)]\<rparr>)"
proof -
  let ?w = "\<lparr>listeners = [Some 0, Some 1],
      storage_state = Map.empty :: string \<rightharpoonup> TestSubscription,
      calls = ([] :: (callee \<times> TestSubscription option) list)\<rparr>"
  let ?w' = "\<lparr>listeners = [None, Some 1],
      storage_state = Map.empty :: string \<rightharpoonup> TestSubscription,
      calls = [(Listener 1, None :: TestSubscription option)]\<rparr>"
  let ?w'' = "\<lparr>listeners = [None, Some 1],
      storage_state = Map.empty :: string \<rightharpoonup> TestSubscription,
      calls = [(Listener 1,
            Some \<lparr>active = True, updatedAt = ''2026-11-02T22:34:00.000Z'', plan = Pro\<rparr>),
          (Listener 1, None)]\<rparr>"
  let ?cs = "[CallSet ''2026-11-02T22:34:00.000Z'' \<lparr>active = True, updatedAt = '''', plan = Pro\<rparr>,
      CallUnsubscribe 0, CallClear]"
  let ?bodies = "\<lambda>(l :: lref) (v :: TestSubscription option). ([] :: string action list)"
  have run: "notify (test_config None) ?bodies None (unsubscribe 0 ?w) = Some (Inr (), ?w')"
    by (simp add: notify_def test_config_def forEach.simps invoke_def unsubscribe_def
        set_delete_def)
  have seq: "run_calls (test_config None) ?bodies ?cs (unsubscribe 0 ?w) = Some ?w''"
    by (simp add: setSubscription_def clearSubscription_def notify_def test_config_def
        createMockStorage_def toStore_def forEach.simps invoke_def unsubscribe_def
        set_delete_def)
  have quiet: "\<forall>fn. Subscribe 0 \<notin> set (?bodies fn None)" by simp
  have none: "\<forall>f. onChange (test_config None) = Some f \<longrightarrow>
      Subscribe 0 \<notin> set ((f :: (TestSubscription, string) callback) None)"
    by (simp add: test_config_def)
  have quiet_all: "\<forall>fn y. Subscribe 0 \<notin> set (?bodies fn y)" by simp
  have none_all: "\<forall>f y. onChange (test_config None) = Some f \<longrightarrow>
      Subscribe 0 \<notin> set ((f :: (TestSubscription, string) callback) y)"
    by (simp add: test_config_def)
  have nosub: "CallSubscribe 0 \<notin> set ?cs" by simp
  have reg: "Some 1 \<in> set (listeners ?w')" by simp
  have 3: "(Listener 0, None) \<notin> set (pass_calls (unsubscribe 0 ?w) ?w')"
    using unsubscribe_removes_exactly [THEN conjunct2, THEN conjunct2, THEN conjunct1,
        rule_format, of "test_config None" ?bodies None 0 ?w "Inr ()" ?w' None]
      run quiet none
    by blast
  have 4: "(Listener 1, None) \<in> set (pass_calls (unsubscribe 0 ?w) ?w')"
    using unsubscribe_removes_exactly [THEN conjunct2, THEN conjunct2, THEN conjunct2,
        THEN conjunct1, rule_format, of "test_config None" ?bodies None 0 ?w ?w' 1]
      run reg
    by blast
  have 8: "(Listener 0, None) \<notin> set (pass_calls (unsubscribe 0 ?w) ?w'')"
    using unsubscribe_removes_exactly [THEN conjunct2, THEN conjunct2, THEN conjunct2,
        THEN conjunct2, THEN conjunct2, THEN conjunct2, THEN conjunct2, rule_format,
        of "test_config None" ?bodies ?cs 0 ?w ?w'' None]
      seq nosub quiet_all none_all
    by blast
  from run 3 4 seq 8 show ?thesis by (intro conjI)
qed

text \<open>
  The inputs at which the claim as stated fails. Listeners 0 and 1 are subscribed; the
  unsubscribe function of listener 0 is called, listener 0 is subscribed again, and the
  same unsubscribe function is called again: the repeat call changes the listener set from
  1, 0 to 1. And with listeners 0, 1 and 2 subscribed and listener 0 unsubscribed, listener
  1 throws when called: listener 2, still registered, is not called.
\<close>

theorem unsubscribe_repeat_call_removes_new_registration:
  "members (listeners (subscribe 0 (unsubscribe 0 (subscribe 1 (subscribe 0
     \<lparr>listeners = [], storage_state = Map.empty :: string \<rightharpoonup> TestSubscription,
      calls = [] :: (callee \<times> TestSubscription option) list\<rparr>))))) = [1, 0] \<and>
   members (listeners (unsubscribe 0 (subscribe 0 (unsubscribe 0 (subscribe 1 (subscribe 0
     \<lparr>listeners = [], storage_state = Map.empty :: string \<rightharpoonup> TestSubscription,
      calls = [] :: (callee \<times> TestSubscription option) list\<rparr>)))))) = [1] \<and>
   clearSubscription (test_config None) (\<lambda>l v. if l = 1 then [Throw ''boom''] else [])
     (unsubscribe 0 (subscribe 2 (subscribe 1 (subscribe 0
        \<lparr>listeners = [], storage_state = Map.empty, calls = []\<rparr>)))) =
     Some (Inl ''boom'',
       \<lparr>listeners = [None, Some 1, Some 2], storage_state = Map.empty,
        calls = [(Listener 1, None)]\<rparr>)"
  by (simp add: clearSubscription_def test_config_def createMockStorage_def notify_def
      forEach.simps invoke_def subscribe_def unsubscribe_def set_add_def set_delete_def
      members_def)

text \<open>
  C7. As stated the claim fails: whether a listener is called exactly once for a mutation
  does not depend on the registry alone; a listener subscribed twice is called twice in
  one pass when another listener unsubscribes and subscribes it during the pass, and not
  at all when \<open>onChange\<close> throws. What holds: the listener set holds a reference at most
  once. Subscribing a reference that is already registered changes nothing, so the manager
  is in the same state as after the first \<open>subscribe\<close> and the reference is in the set
  once. Subscribing two different references, whatever their bodies, equal or not, puts
  both in the set, each once. In a pass in which the callbacks neither throw nor change the
  listener set, a reference subscribed twice is called once, and two different references
  are called once each.
\<close>

theorem subscribe_set_semantics:
  "subscribe l (subscribe l w) = subscribe l w \<and>
   (distinct (members (listeners w)) \<longrightarrow>
      distinct (members (listeners (subscribe l w))) \<and>
      distinct (members (listeners (unsubscribe l w))) \<and>
      count_list (members (listeners (subscribe l (subscribe l w)))) l = 1) \<and>
   (distinct (members (listeners w)) \<and> l1 \<noteq> l2 \<longrightarrow>
      count_list (members (listeners (subscribe l2 (subscribe l1 w)))) l1 = 1 \<and>
      count_list (members (listeners (subscribe l2 (subscribe l1 w)))) l2 = 1) \<and>
   (distinct (members (listeners w)) \<and>
    (\<forall>l' \<in> set (members (listeners (subscribe l w))). bodies l' v = []) \<and>
    (\<forall>f. onChange config = Some f \<longrightarrow> f v = []) \<longrightarrow>
      (\<exists>w'. notify config bodies v (subscribe l (subscribe l w)) = Some (Inr (), w') \<and>
         count_list (pass_calls (subscribe l (subscribe l w)) w') (Listener l, v) = 1)) \<and>
   (distinct (members (listeners w)) \<and> l1 \<noteq> l2 \<and>
    (\<forall>l' \<in> set (members (listeners (subscribe l2 (subscribe l1 w)))). bodies l' v = []) \<and>
    (\<forall>f. onChange config = Some f \<longrightarrow> f v = []) \<longrightarrow>
      (\<exists>w'. notify config bodies v (subscribe l2 (subscribe l1 w)) = Some (Inr (), w') \<and>
         count_list (pass_calls (subscribe l2 (subscribe l1 w)) w') (Listener l1, v) = 1 \<and>
         count_list (pass_calls (subscribe l2 (subscribe l1 w)) w') (Listener l2, v) = 1))"
proof (intro conjI impI)
  show idem: "subscribe l (subscribe l w) = subscribe l w"
    by (simp add: subscribe_def set_add_idem)
  have ds: "distinct (members (listeners (subscribe k u)))"
    if "distinct (members (listeners u))" for k and u :: "('a, 'b) world"
    using that by (simp add: subscribe_def distinct_set_add)
  have ms: "k \<in> set (members (listeners (subscribe k u)))" for k and u :: "('a, 'b) world"
    by (simp add: subscribe_def members_set_add)
  have mk: "k \<in> set (members (listeners (subscribe k' u)))"
    if "k \<in> set (members (listeners u))" for k k' and u :: "('a, 'b) world"
    using that by (simp add: subscribe_def members_set_add)
  {
    assume d: "distinct (members (listeners w))"
    show "distinct (members (listeners (subscribe l w)))" using d by (rule ds)
    show "distinct (members (listeners (unsubscribe l w)))"
      using d by (simp add: unsubscribe_def distinct_set_delete)
    show "count_list (members (listeners (subscribe l (subscribe l w)))) l = 1"
      unfolding idem using ds [OF d] ms by (rule count_distinct_member)
  }
  {
    assume a: "distinct (members (listeners w)) \<and> l1 \<noteq> l2"
    then have d2: "distinct (members (listeners (subscribe l2 (subscribe l1 w))))"
      by (intro ds) simp
    show "count_list (members (listeners (subscribe l2 (subscribe l1 w)))) l1 = 1"
      using d2 mk [OF ms] by (rule count_distinct_member)
    show "count_list (members (listeners (subscribe l2 (subscribe l1 w)))) l2 = 1"
      using d2 ms by (rule count_distinct_member)
  }
  {
    assume a: "distinct (members (listeners w)) \<and>
      (\<forall>l' \<in> set (members (listeners (subscribe l w))). bodies l' v = []) \<and>
      (\<forall>f. onChange config = Some f \<longrightarrow> f v = [])"
    then have "\<exists>w'. notify config bodies v (subscribe l w) = Some (Inr (), w') \<and>
         count_list (pass_calls (subscribe l w) w') (Listener l, v) = 1"
      by (intro notify_passive_count ds ms) simp_all
    then show "\<exists>w'. notify config bodies v (subscribe l (subscribe l w)) = Some (Inr (), w') \<and>
         count_list (pass_calls (subscribe l (subscribe l w)) w') (Listener l, v) = 1"
      by (simp only: idem)
  }
  {
    assume a: "distinct (members (listeners w)) \<and> l1 \<noteq> l2 \<and>
      (\<forall>l' \<in> set (members (listeners (subscribe l2 (subscribe l1 w)))). bodies l' v = []) \<and>
      (\<forall>f. onChange config = Some f \<longrightarrow> f v = [])"
    let ?u = "subscribe l2 (subscribe l1 w)"
    let ?w' = "?u\<lparr>calls := calls ?u @ onChange_calls config v @
                              listener_calls v (members (listeners ?u))\<rparr>"
    from a have d2: "distinct (members (listeners ?u))" by (intro ds) simp
    have n: "notify config bodies v ?u = Some (Inr (), ?w')"
      using a by (intro notify_passive) simp_all
    have pc: "pass_calls ?u ?w' = onChange_calls config v @ listener_calls v (members (listeners ?u))"
      by (simp add: pass_calls_def)
    have "count_list (pass_calls ?u ?w') (Listener l1, v) = 1"
      unfolding pc using d2 mk [OF ms, of l1 l2 w]
      by (simp add: count_onChange_calls count_listener_calls)
    moreover have "count_list (pass_calls ?u ?w') (Listener l2, v) = 1"
      unfolding pc using d2 ms [of l2 "subscribe l1 w"]
      by (simp add: count_onChange_calls count_listener_calls)
    ultimately show "\<exists>w'. notify config bodies v ?u = Some (Inr (), w') \<and>
         count_list (pass_calls ?u w') (Listener l1, v) = 1 \<and>
         count_list (pass_calls ?u w') (Listener l2, v) = 1"
      using n by blast
  }
qed

theorem subscribe_set_semantics_witness:
  "distinct (members (listeners
     \<lparr>listeners = [], storage_state = Map.empty :: string \<rightharpoonup> TestSubscription,
      calls = [] :: (callee \<times> TestSubscription option) list\<rparr>)) \<and>
   (0 :: lref) \<noteq> 1 \<and>
   listeners (subscribe 0 (subscribe 0
     \<lparr>listeners = [], storage_state = Map.empty :: string \<rightharpoonup> TestSubscription,
      calls = [] :: (callee \<times> TestSubscription option) list\<rparr>)) = [Some 0] \<and>
   listeners (subscribe 1 (subscribe 0
     \<lparr>listeners = [], storage_state = Map.empty :: string \<rightharpoonup> TestSubscription,
      calls = [] :: (callee \<times> TestSubscription option) list\<rparr>)) = [Some 0, Some 1] \<and>
   (\<exists>w'. notify (test_config None) (\<lambda>l v. []) None
            (subscribe 1 (subscribe 0
               \<lparr>listeners = [], storage_state = Map.empty, calls = []\<rparr>)) =
          Some (Inr (), w') \<and>
        count_list (pass_calls
            (subscribe 1 (subscribe 0
               \<lparr>listeners = [], storage_state = Map.empty, calls = []\<rparr>)) w')
          (Listener 0, None) = 1 \<and>
        count_list (pass_calls
            (subscribe 1 (subscribe 0
               \<lparr>listeners = [], storage_state = Map.empty, calls = []\<rparr>)) w')
          (Listener 1, None) = 1)"
proof -
  let ?w = "\<lparr>listeners = [], storage_state = Map.empty :: string \<rightharpoonup> TestSubscription,
      calls = [] :: (callee \<times> TestSubscription option) list\<rparr>"
  let ?bodies = "\<lambda>(l :: lref) (v :: TestSubscription option). ([] :: string action list)"
  have d: "distinct (members (listeners ?w))" by (simp add: members_def)
  have ne: "(0 :: lref) \<noteq> 1" by simp
  have once: "listeners (subscribe 0 (subscribe 0 ?w)) = [Some 0]"
    by (simp add: subscribe_def set_add_def)
  have two: "listeners (subscribe 1 (subscribe 0 ?w)) = [Some 0, Some 1]"
    by (simp add: subscribe_def set_add_def)
  have hyp: "distinct (members (listeners ?w)) \<and> (0 :: lref) \<noteq> 1 \<and>
      (\<forall>l' \<in> set (members (listeners (subscribe 1 (subscribe 0 ?w)))). ?bodies l' None = []) \<and>
      (\<forall>f. onChange (test_config None) = Some f \<longrightarrow>
         (f :: (TestSubscription, string) callback) None = [])"
    using d by (simp add: test_config_def)
  from subscribe_set_semantics [THEN conjunct2, THEN conjunct2, THEN conjunct2, THEN conjunct2,
      rule_format, OF hyp]
  have "\<exists>w'. notify (test_config None) ?bodies None (subscribe 1 (subscribe 0 ?w)) =
          Some (Inr (), w') \<and>
        count_list (pass_calls (subscribe 1 (subscribe 0 ?w)) w') (Listener 0, None) = 1 \<and>
        count_list (pass_calls (subscribe 1 (subscribe 0 ?w)) w') (Listener 1, None) = 1" .
  with d ne once two show ?thesis by (intro conjI)
qed

text \<open>
  The inputs at which the claim as stated fails. Listener 1 is subscribed twice and listener
  2 once; listener 2, when called, calls the unsubscribe function of listener 1 and
  subscribes listener 1 again: listener 1 is called twice for the one mutation. And with
  listener 1 subscribed twice and an \<open>onChange\<close> that throws, listener 1 is not called.
\<close>

theorem listener_subscribed_twice_not_called_once:
  "clearSubscription (test_config None)
     (\<lambda>l v. if l = 2 then [Unsubscribe 1, Subscribe 1] else [])
     (subscribe 2 (subscribe 1 (subscribe 1
        \<lparr>listeners = [], storage_state = Map.empty, calls = []\<rparr>))) =
     Some (Inr (),
       \<lparr>listeners = [None, Some 2, Some 1], storage_state = Map.empty,
        calls = [(Listener 1, None), (Listener 2, None), (Listener 1, None)]\<rparr>) \<and>
   clearSubscription (test_config (Some (\<lambda>v. [Throw ''boom''])))
     (\<lambda>l v. [])
     (subscribe 1 (subscribe 1
        \<lparr>listeners = [], storage_state = Map.empty, calls = []\<rparr>)) =
     Some (Inl ''boom'',
       \<lparr>listeners = [Some 1], storage_state = Map.empty,
        calls = [(OnChange, None)]\<rparr>)"
  by (simp add: clearSubscription_def test_config_def createMockStorage_def notify_def
      forEach.simps invoke_def subscribe_def unsubscribe_def set_add_def set_delete_def)

text \<open>
  C8. \<open>setSubscription\<close> returns whenever no listener subscribes a listener during the
  pass. When it returns, the record that it handed to the storage adapter, and that every
  callback called for the mutation received, is the caller's record with at most
  \<open>updatedAt\<close> overwritten: \<open>active\<close> and the extension fields are those of the caller. With
  the in-memory adapter it is what the store holds under the configured key afterwards.
\<close>

theorem setSubscription_passes_fields_through:
  "((\<forall>fn x l. Subscribe l \<notin> set (bodies fn x)) \<longrightarrow>
      (\<exists>res w'. setSubscription config bodies now R w = Some (res, w'))) \<and>
   (setSubscription config bodies now R w = Some (res, w') \<longrightarrow>
      (\<exists>u. storage_state w' =
             snd (storage_set (storage config) (storageKey config) (R\<lparr>updatedAt := u\<rparr>)
                    (storage_state w)) \<and>
           (storage config = createMockStorage \<longrightarrow>
              storage_state w' (storageKey config) = Some (R\<lparr>updatedAt := u\<rparr>)) \<and>
           (\<forall>(c, x) \<in> set (pass_calls w w'). x = Some (R\<lparr>updatedAt := u\<rparr>)) \<and>
           active (R\<lparr>updatedAt := u\<rparr>) = active R \<and>
           ISubscription.more (R\<lparr>updatedAt := u\<rparr>) = ISubscription.more R))"
proof (rule conjI; rule impI)
  assume "\<forall>fn x l. Subscribe l \<notin> set (bodies fn x)"
  then show "\<exists>res w'. setSubscription config bodies now R w = Some (res, w')"
    using setSubscription_returns [of bodies now R config w] by auto
next
  assume run: "setSubscription config bodies now R w = Some (res, w')"
  let ?u = "if updatedAt R \<noteq> [] then updatedAt R else now"
  have ts: "toStore now R = R\<lparr>updatedAt := ?u\<rparr>" by (simp add: toStore_def)
  have 1: "storage_state w' =
      snd (storage_set (storage config) (storageKey config) (R\<lparr>updatedAt := ?u\<rparr>) (storage_state w))"
    using setSubscription_storage [OF run] by (simp add: ts)
  have 2: "storage config = createMockStorage \<longrightarrow>
      storage_state w' (storageKey config) = Some (R\<lparr>updatedAt := ?u\<rparr>)"
    using 1 by (simp add: createMockStorage_def)
  have 3: "\<forall>(c, x) \<in> set (pass_calls w w'). x = Some (R\<lparr>updatedAt := ?u\<rparr>)"
    using setSubscription_values [OF run] by (auto simp: ts)
  from 1 2 3
  show "\<exists>u. storage_state w' =
             snd (storage_set (storage config) (storageKey config) (R\<lparr>updatedAt := u\<rparr>)
                    (storage_state w)) \<and>
           (storage config = createMockStorage \<longrightarrow>
              storage_state w' (storageKey config) = Some (R\<lparr>updatedAt := u\<rparr>)) \<and>
           (\<forall>(c, x) \<in> set (pass_calls w w'). x = Some (R\<lparr>updatedAt := u\<rparr>)) \<and>
           active (R\<lparr>updatedAt := u\<rparr>) = active R \<and>
           ISubscription.more (R\<lparr>updatedAt := u\<rparr>) = ISubscription.more R"
    by (intro exI [of _ ?u]) simp
qed

theorem setSubscription_passes_fields_through_witness:
  "setSubscription (test_config (Some (\<lambda>v. []))) (\<lambda>l v. []) ''2026-11-02T22:34:00.000Z''
       \<lparr>active = True, updatedAt = '''', plan = Pro\<rparr>
       \<lparr>listeners = [Some 0], storage_state = Map.empty, calls = []\<rparr> =
     Some (Inr (),
       \<lparr>listeners = [Some 0],
        storage_state = [STORAGE_KEY \<mapsto>
          \<lparr>active = True, updatedAt = ''2026-11-02T22:34:00.000Z'', plan = Pro\<rparr>],
        calls = [(OnChange,
            Some \<lparr>active = True, updatedAt = ''2026-11-02T22:34:00.000Z'', plan = Pro\<rparr>),
          (Listener 0,
            Some \<lparr>active = True, updatedAt = ''2026-11-02T22:34:00.000Z'', plan = Pro\<rparr>)]\<rparr>) \<and>
   (\<exists>u. (\<forall>(c, x) \<in> set [(OnChange,
            Some \<lparr>active = True, updatedAt = ''2026-11-02T22:34:00.000Z'', plan = Pro\<rparr>),
          (Listener 0,
            Some \<lparr>active = True, updatedAt = ''2026-11-02T22:34:00.000Z'', plan = Pro\<rparr>)].
            x = Some \<lparr>active = True, updatedAt = u, plan = Pro\<rparr>))"
proof -
  have run: "setSubscription (test_config (Some (\<lambda>v. []))) (\<lambda>l v. []) ''2026-11-02T22:34:00.000Z''
       \<lparr>active = True, updatedAt = '''', plan = Pro\<rparr>
       \<lparr>listeners = [Some 0], storage_state = Map.empty, calls = []\<rparr> =
     Some (Inr (),
       \<lparr>listeners = [Some 0],
        storage_state = [STORAGE_KEY \<mapsto>
          \<lparr>active = True, updatedAt = ''2026-11-02T22:34:00.000Z'', plan = Pro\<rparr>],
        calls = [(OnChange,
            Some \<lparr>active = True, updatedAt = ''2026-11-02T22:34:00.000Z'', plan = Pro\<rparr>),
          (Listener 0,
            Some \<lparr>active = True, updatedAt = ''2026-11-02T22:34:00.000Z'', plan = Pro\<rparr>)]\<rparr>)"
    by (simp add: setSubscription_def test_config_def createMockStorage_def toStore_def
        notify_def forEach.simps invoke_def)
  from setSubscription_passes_fields_through [THEN conjunct2, rule_format, OF run]
  obtain u where "\<forall>(c, x) \<in> set (pass_calls
       \<lparr>listeners = [Some 0], storage_state = Map.empty, calls = []\<rparr>
       \<lparr>listeners = [Some 0],
        storage_state = [STORAGE_KEY \<mapsto>
          \<lparr>active = True, updatedAt = ''2026-11-02T22:34:00.000Z'', plan = Pro\<rparr>],
        calls = [(OnChange,
            Some \<lparr>active = True, updatedAt = ''2026-11-02T22:34:00.000Z'', plan = Pro\<rparr>),
          (Listener 0,
            Some \<lparr>active = True, updatedAt = ''2026-11-02T22:34:00.000Z'', plan = Pro\<rparr>)]\<rparr>).
       x = Some (\<lparr>active = True, updatedAt = '''', plan = Pro\<rparr>\<lparr>updatedAt := u\<rparr>)"
    by blast
  then have "\<forall>(c, x) \<in> set [(OnChange,
            Some \<lparr>active = True, updatedAt = ''2026-11-02T22:34:00.000Z'', plan = Pro\<rparr>),
          (Listener 0,
            Some \<lparr>active = True, updatedAt = ''2026-11-02T22:34:00.000Z'', plan = Pro\<rparr>)].
            x = Some \<lparr>active = True, updatedAt = u, plan = Pro\<rparr>"
    by (simp add: pass_calls_def)
  with run show ?thesis by blast
qed

text \<open>
  C9. \<open>isActive\<close> reads the configured key once. It returns false when the adapter
  reports no record (with the in-memory adapter: when the store holds nothing under the
  key, as before any write) and when the record has \<open>active\<close> false, and true exactly
  when the record has \<open>active\<close> true. A failure of the read is returned as it is.
  Nothing else changes: no callback is called and the listeners are as before.
\<close>

theorem isActive_result:
  "(storage_get (storage config) (storageKey config) (storage_state w) = (Inr None, s') \<longrightarrow>
      isActive config w = (Inr False, w\<lparr>storage_state := s'\<rparr>)) \<and>
   (storage_get (storage config) (storageKey config) (storage_state w) = (Inr (Some r), s') \<longrightarrow>
      isActive config w = (Inr (active r), w\<lparr>storage_state := s'\<rparr>)) \<and>
   (storage_get (storage config) (storageKey config) (storage_state w) = (Inl e, s') \<longrightarrow>
      isActive config w = (Inl e, w\<lparr>storage_state := s'\<rparr>)) \<and>
   calls (snd (isActive config w)) = calls w \<and>
   listeners (snd (isActive config w)) = listeners w \<and>
   (storage config = createMockStorage \<longrightarrow> storage_state w (storageKey config) = None \<longrightarrow>
      fst (isActive config w) = Inr False)"
  by (auto simp: isActive_def getSubscription_def createMockStorage_def
      split: prod.splits sum.splits option.splits)

theorem isActive_result_witness:
  "storage_get (storage (test_config None)) (storageKey (test_config None))
      [STORAGE_KEY \<mapsto> \<lparr>active = True, updatedAt = ''2025-01-01T00:00:00.000Z'', plan = Pro\<rparr>] =
     (Inr (Some \<lparr>active = True, updatedAt = ''2025-01-01T00:00:00.000Z'', plan = Pro\<rparr>),
      [STORAGE_KEY \<mapsto> \<lparr>active = True, updatedAt = ''2025-01-01T00:00:00.000Z'', plan = Pro\<rparr>]) \<and>
   isActive (test_config None)
     \<lparr>listeners = [Some 0],
      storage_state = [STORAGE_KEY \<mapsto> \<lparr>active = True, updatedAt = ''2025-01-01T00:00:00.000Z'', plan = Pro\<rparr>],
      calls = []\<rparr> =
     (Inr True,
      \<lparr>listeners = [Some 0],
       storage_state = [STORAGE_KEY \<mapsto> \<lparr>active = True, updatedAt = ''2025-01-01T00:00:00.000Z'', plan = Pro\<rparr>],
       calls = []\<rparr>)"
proof -
  have g: "storage_get (storage (test_config None)) (storageKey (test_config None))
      [STORAGE_KEY \<mapsto> \<lparr>active = True, updatedAt = ''2025-01-01T00:00:00.000Z'', plan = Pro\<rparr>] =
     (Inr (Some \<lparr>active = True, updatedAt = ''2025-01-01T00:00:00.000Z'', plan = Pro\<rparr>),
      [STORAGE_KEY \<mapsto> \<lparr>active = True, updatedAt = ''2025-01-01T00:00:00.000Z'', plan = Pro\<rparr>])"
    by (simp add: test_config_def createMockStorage_def)
  from isActive_result [THEN conjunct2, THEN conjunct1, rule_format,
      of "test_config None" "\<lparr>listeners = [Some 0],
      storage_state = [STORAGE_KEY \<mapsto> \<lparr>active = True, updatedAt = ''2025-01-01T00:00:00.000Z'', plan = Pro\<rparr>],
      calls = []\<rparr>"] g
  show ?thesis by simp
qed

text \<open>
  C10. When the write (or the removal) has succeeded and the configured \<open>onChange\<close>
  throws, the operation fails with the value thrown, \<open>onChange\<close> is the only callback
  that was called, so no listener is notified, and the storage is as the adapter left it
  after the write (or the removal).
\<close>

theorem onChange_throw_skips_listeners:
  assumes "onChange config = Some f"
    and "f v = pre @ Throw e # post" and "\<forall>e'. Throw e' \<notin> set pre"
  shows "(v = Some (toStore now R) \<and>
          storage_set (storage config) (storageKey config) (toStore now R) (storage_state w) =
            (Inr (), s') \<longrightarrow>
          (\<exists>w'. setSubscription config bodies now R w = Some (Inl e, w') \<and>
             pass_calls w w' = [(OnChange, v)] \<and> storage_state w' = s')) \<and>
         (v = None \<and>
          storage_remove (storage config) (storageKey config) (storage_state w) = (Inr (), s') \<longrightarrow>
          (\<exists>w'. clearSubscription config bodies w = Some (Inl e, w') \<and>
             pass_calls w w' = [(OnChange, v)] \<and> storage_state w' = s'))"
proof -
  from notify_onChange_throw [OF assms, of bodies "w\<lparr>storage_state := s'\<rparr>"]
  obtain w' where n: "notify config bodies v (w\<lparr>storage_state := s'\<rparr>) = Some (Inl e, w')"
    and c: "pass_calls (w\<lparr>storage_state := s'\<rparr>) w' = [(OnChange, v)]"
    and s: "storage_state w' = s'"
    by auto
  from c have c': "pass_calls w w' = [(OnChange, v)]" by (simp add: pass_calls_def)
  from n c' s show ?thesis
    by (auto simp: setSubscription_def clearSubscription_def)
qed

theorem onChange_throw_skips_listeners_witness:
  "onChange (test_config (Some (\<lambda>v. [Throw ''boom'']))) = Some (\<lambda>v. [Throw ''boom'']) \<and>
   storage_set (storage (test_config (Some (\<lambda>v. [Throw ''boom''])))) 
      (storageKey (test_config (Some (\<lambda>v. [Throw ''boom'']))))
      (toStore ''2026-11-02T22:34:00.000Z'' \<lparr>active = True, updatedAt = '''', plan = Pro\<rparr>)
      Map.empty =
     (Inr (), [STORAGE_KEY \<mapsto>
        \<lparr>active = True, updatedAt = ''2026-11-02T22:34:00.000Z'', plan = Pro\<rparr>]) \<and>
   (\<exists>w'. setSubscription (test_config (Some (\<lambda>v. [Throw ''boom''])))
            (\<lambda>l v. []) ''2026-11-02T22:34:00.000Z''
            \<lparr>active = True, updatedAt = '''', plan = Pro\<rparr>
            \<lparr>listeners = [Some 0], storage_state = Map.empty, calls = []\<rparr> =
          Some (Inl ''boom'', w') \<and>
        calls w' = [(OnChange,
          Some \<lparr>active = True, updatedAt = ''2026-11-02T22:34:00.000Z'', plan = Pro\<rparr>)] \<and>
        storage_state w' = [STORAGE_KEY \<mapsto>
          \<lparr>active = True, updatedAt = ''2026-11-02T22:34:00.000Z'', plan = Pro\<rparr>])"
proof -
  let ?cfg = "test_config (Some (\<lambda>v. [Throw ''boom'']))"
  let ?v = "Some (toStore ''2026-11-02T22:34:00.000Z'' \<lparr>active = True, updatedAt = '''', plan = Pro\<rparr>)"
  have o: "onChange ?cfg = Some (\<lambda>v. [Throw ''boom''])"
    by (simp add: test_config_def)
  have f: "(\<lambda>v. [Throw ''boom'']) ?v = [] @ Throw ''boom'' # []" by simp
  have p: "\<forall>e'. Throw e' \<notin> set ([] :: string action list)" by simp
  have st: "storage_set (storage ?cfg) (storageKey ?cfg)
      (toStore ''2026-11-02T22:34:00.000Z'' \<lparr>active = True, updatedAt = '''', plan = Pro\<rparr>)
      Map.empty =
     (Inr (), [STORAGE_KEY \<mapsto>
        \<lparr>active = True, updatedAt = ''2026-11-02T22:34:00.000Z'', plan = Pro\<rparr>])"
    by (simp add: test_config_def createMockStorage_def toStore_def)
  from onChange_throw_skips_listeners [OF o f p, THEN conjunct1, rule_format,
      where now = "''2026-11-02T22:34:00.000Z''"
        and R = "\<lparr>active = True, updatedAt = '''', plan = Pro\<rparr>"
        and w = "\<lparr>listeners = [Some 0], storage_state = Map.empty, calls = []\<rparr>"
        and s' = "[STORAGE_KEY \<mapsto> \<lparr>active = True, updatedAt = ''2026-11-02T22:34:00.000Z'', plan = Pro\<rparr>]"
        and bodies = "\<lambda>l v. []"]
    st
  have "\<exists>w'. setSubscription ?cfg (\<lambda>l v. []) ''2026-11-02T22:34:00.000Z''
            \<lparr>active = True, updatedAt = '''', plan = Pro\<rparr>
            \<lparr>listeners = [Some 0], storage_state = Map.empty, calls = []\<rparr> =
          Some (Inl ''boom'', w') \<and>
        calls w' = [(OnChange,
          Some \<lparr>active = True, updatedAt = ''2026-11-02T22:34:00.000Z'', plan = Pro\<rparr>)] \<and>
        storage_state w' = [STORAGE_KEY \<mapsto>
          \<lparr>active = True, updatedAt = ''2026-11-02T22:34:00.000Z'', plan = Pro\<rparr>]"
    by (simp add: pass_calls_def toStore_def)
  with o st show ?thesis by (intro conjI)
qed

end
